theory Spec2Isabelle
  imports Main
begin

section \<open>Storage, element lifetimes and failures\<close>

text \<open>
  The development embeds \<^verbatim>\<open>advanced-vector/vector.h\<close>: the class templates
  \<^verbatim>\<open>RawMemory<T>\<close> and \<^verbatim>\<open>Vector<T>\<close>.

  Every way a call can end other than by returning is a value of \<open>error\<close>:
  \<^item> \<open>BadAlloc\<close>: \<^verbatim>\<open>operator new\<close> throws;
  \<^item> \<open>ElemThrow\<close>: a constructor or an assignment operator of the element type throws;
  \<^item> \<open>AssertFail\<close>: an \<^verbatim>\<open>assert\<close> of the source fails (the build with assertions);
  \<^item> \<open>Terminate\<close>: an exception leaves a function declared \<^verbatim>\<open>noexcept\<close>
    (\<^verbatim>\<open>std::terminate\<close>);
  \<^item> \<open>MemFault\<close>: a read or a write outside every allocated block, or an invalid
    iterator range handed to a standard algorithm (undefined behaviour in C++);
  \<^item> \<open>LifetimeFault\<close>: the destructor of a type that is not trivially destructible
    runs on storage in which no object lives, because none was ever constructed there or
    because it was destroyed before (undefined behaviour in C++).
  An outcome carries the state in which the call ended, so that what a failed call left
  behind can be compared with the state before it.
\<close>

datatype error = BadAlloc | ElemThrow | AssertFail | Terminate | MemFault | LifetimeFault

datatype ('r, 's) outcome = Ok 'r 's | Raise error 's

text \<open>
  One slot of raw storage for a \<^verbatim>\<open>T\<close>. \<open>alive\<close> says whether an object has been
  constructed there and not yet destroyed; \<open>content\<close> is the value the storage holds,
  \<open>None\<close> when it is indeterminate (never written, or left behind by a destructor that
  releases what the object owned).
\<close>

datatype 'a slot = Slot (alive: bool) (content: "'a option")

definition raw_slot :: "'a slot" where
  "raw_slot = Slot False None"

text \<open>
  The element type \<^verbatim>\<open>T\<close> is a parameter of the templates. The model takes what the
  code asks of it: \<^verbatim>\<open>sizeof(T)\<close>, the three type traits the source tests, on which
  stored values its copy and move operations throw (they are asked about the content of
  the source slot, \<open>None\<close> when the operation reads storage whose value is
  indeterminate), what a moved-from object holds, whether its destructor is trivial (as
  for \<^verbatim>\<open>int\<close>) and so leaves the stored value in place, and the result of
  value-initialisation \<^verbatim>\<open>T()\<close> (\<open>None\<close>: it throws). A type whose move
  constructor or move assignment is \<^verbatim>\<open>noexcept\<close> never throws from it, whatever
  \<open>move_ctor_throws\<close> or \<open>move_assign_throws\<close> says.
\<close>

record 'a elem_type =
  size_of :: nat
  nothrow_move_constructible :: bool
  nothrow_move_assignable :: bool
  copy_constructible :: bool
  copy_ctor_throws :: "'a option \<Rightarrow> bool"
  copy_assign_throws :: "'a option \<Rightarrow> bool"
  move_ctor_throws :: "'a option \<Rightarrow> bool"
  move_assign_throws :: "'a option \<Rightarrow> bool"
  moved_from :: "'a \<Rightarrow> 'a"
  trivial_dtor :: bool
  value_init :: "'a option"

text \<open>
  The free store: the blocks handed out by \<^verbatim>\<open>operator new\<close>, each a list of slots,
  keyed by their address; addresses are handed out in increasing order and \<open>avail\<close>
  is the room that is left, counted in slots of a \<^verbatim>\<open>T\<close>. A \<^verbatim>\<open>T*\<close> is a block
  address (or null) and an offset in slots.
\<close>

record 'a heap =
  blocks :: "nat \<Rightarrow> 'a slot list option"
  next_addr :: nat
  avail :: nat

datatype ptr = Ptr (base: "nat option") (off: nat)

definition nullptr :: ptr where
  "nullptr = Ptr None 0"

definition ptr_add :: "ptr \<Rightarrow> nat \<Rightarrow> ptr" where
  "ptr_add p k = Ptr (base p) (off p + k)"

definition load :: "'a heap \<Rightarrow> ptr \<Rightarrow> 'a slot option" where
  "load h p =
     (case base p of
        None \<Rightarrow> None
      | Some a \<Rightarrow>
          (case blocks h a of
             None \<Rightarrow> None
           | Some b \<Rightarrow> if off p < length b then Some (b ! off p) else None))"

definition store :: "ptr \<Rightarrow> 'a slot \<Rightarrow> 'a heap \<Rightarrow> 'a heap option" where
  "store p s h =
     (case base p of
        None \<Rightarrow> None
      | Some a \<Rightarrow>
          (case blocks h a of
             None \<Rightarrow> None
           | Some b \<Rightarrow>
               if off p < length b
               then Some (h\<lparr>blocks := (blocks h)(a \<mapsto> b[off p := s])\<rparr>)
               else None))"

subsection \<open>Operations on one element\<close>

text \<open>
  Placement construction of an object holding \<open>c\<close> at \<open>p\<close>; whatever the slot held
  before is overwritten without a destructor call.
\<close>

definition construct_at :: "ptr \<Rightarrow> 'a option \<Rightarrow> 'a heap \<Rightarrow> (unit, 'a heap) outcome" where
  "construct_at p c h =
     (case store p (Slot True c) h of
        None \<Rightarrow> Raise MemFault h
      | Some h' \<Rightarrow> Ok () h')"

text \<open>Overwrites the value of the slot at \<open>p\<close> and leaves its lifetime as it is.\<close>

definition set_content :: "ptr \<Rightarrow> 'a option \<Rightarrow> 'a heap \<Rightarrow> (unit, 'a heap) outcome" where
  "set_content p c h =
     (case load h p of
        None \<Rightarrow> Raise MemFault h
      | Some s \<Rightarrow>
          (case store p (Slot (alive s) c) h of
             None \<Rightarrow> Raise MemFault h
           | Some h' \<Rightarrow> Ok () h'))"

text \<open>
  Whether an operation of the element type throws when its source is the slot \<open>s\<close>:
  the type is asked about what the slot holds, be it a value or indeterminate.
\<close>

definition throws_on :: "('a option \<Rightarrow> bool) \<Rightarrow> 'a slot \<Rightarrow> bool" where
  "throws_on f s = f (content s)"

definition move_ctor_fails :: "'a elem_type \<Rightarrow> 'a slot \<Rightarrow> bool" where
  "move_ctor_fails T s =
     (if nothrow_move_constructible T then False else throws_on (move_ctor_throws T) s)"

definition move_assign_fails :: "'a elem_type \<Rightarrow> 'a slot \<Rightarrow> bool" where
  "move_assign_fails T s =
     (if nothrow_move_assignable T then False else throws_on (move_assign_throws T) s)"

text \<open>\<^verbatim>\<open>new (dst) T(*src)\<close>: the copy constructor.\<close>

definition copy_construct :: "'a elem_type \<Rightarrow> ptr \<Rightarrow> ptr \<Rightarrow> 'a heap \<Rightarrow> (unit, 'a heap) outcome" where
  "copy_construct T src dst h =
     (case load h src of
        None \<Rightarrow> Raise MemFault h
      | Some s \<Rightarrow>
          if throws_on (copy_ctor_throws T) s then Raise ElemThrow h
          else construct_at dst (content s) h)"

text \<open>
  \<^verbatim>\<open>new (dst) T(std::move(*src))\<close>: the move constructor. The new object takes the
  value; the source is written last and keeps what a moved-from object holds.
\<close>

definition move_construct :: "'a elem_type \<Rightarrow> ptr \<Rightarrow> ptr \<Rightarrow> 'a heap \<Rightarrow> (unit, 'a heap) outcome" where
  "move_construct T src dst h =
     (case load h src of
        None \<Rightarrow> Raise MemFault h
      | Some s \<Rightarrow>
          if move_ctor_fails T s then Raise ElemThrow h
          else
            (case construct_at dst (content s) h of
               Raise e h' \<Rightarrow> Raise e h'
             | Ok _ h' \<Rightarrow> set_content src (map_option (moved_from T) (content s)) h'))"

text \<open>\<^verbatim>\<open>*dst = *src\<close>: copy assignment.\<close>

definition copy_assign :: "'a elem_type \<Rightarrow> ptr \<Rightarrow> ptr \<Rightarrow> 'a heap \<Rightarrow> (unit, 'a heap) outcome" where
  "copy_assign T src dst h =
     (case load h src of
        None \<Rightarrow> Raise MemFault h
      | Some s \<Rightarrow>
          if throws_on (copy_assign_throws T) s then Raise ElemThrow h
          else set_content dst (content s) h)"

text \<open>\<^verbatim>\<open>*dst = std::move(*src)\<close>: move assignment.\<close>

definition move_assign :: "'a elem_type \<Rightarrow> ptr \<Rightarrow> ptr \<Rightarrow> 'a heap \<Rightarrow> (unit, 'a heap) outcome" where
  "move_assign T src dst h =
     (case load h src of
        None \<Rightarrow> Raise MemFault h
      | Some s \<Rightarrow>
          if move_assign_fails T s then Raise ElemThrow h
          else
            (case set_content dst (content s) h of
               Raise e h' \<Rightarrow> Raise e h'
             | Ok _ h' \<Rightarrow> set_content src (map_option (moved_from T) (content s)) h'))"

text \<open>
  \<^verbatim>\<open>std::destroy_at(p)\<close> calls the destructor of the object at \<open>p\<close>; no object
  lives there afterwards. A trivial destructor does nothing, whatever the storage holds.
  Any other destructor releases what the object owned and leaves an indeterminate value;
  run on storage in which no object lives it has undefined behaviour.
\<close>

definition destroyed :: "'a elem_type \<Rightarrow> 'a slot \<Rightarrow> 'a slot" where
  "destroyed T s = Slot False (if trivial_dtor T then content s else None)"

definition destroy_at :: "'a elem_type \<Rightarrow> ptr \<Rightarrow> 'a heap \<Rightarrow> (unit, 'a heap) outcome" where
  "destroy_at T p h =
     (case load h p of
        None \<Rightarrow> Raise MemFault h
      | Some s \<Rightarrow>
          if \<not> trivial_dtor T \<and> \<not> alive s then Raise LifetimeFault h
          else
            (case store p (destroyed T s) h of
               None \<Rightarrow> Raise MemFault h
             | Some h' \<Rightarrow> Ok () h'))"

subsection \<open>The standard algorithms the source calls\<close>

fun destroy_n :: "'a elem_type \<Rightarrow> ptr \<Rightarrow> nat \<Rightarrow> 'a heap \<Rightarrow> (unit, 'a heap) outcome" where
  "destroy_n T p 0 h = Ok () h"
| "destroy_n T p (Suc n) h =
     (case destroy_at T p h of
        Raise e h' \<Rightarrow> Raise e h'
      | Ok _ h' \<Rightarrow> destroy_n T (ptr_add p 1) n h')"

text \<open>
  The uninitialized algorithms construct into raw storage from \<open>out\<close> on; \<open>k\<close> counts
  the objects built so far. When a constructor throws they destroy those \<open>k\<close> objects
  and rethrow. Only a C++ exception is caught and unwinds the stack; a failed assertion
  or undefined behaviour ends the call where it happens.
\<close>

definition is_exception :: "error \<Rightarrow> bool" where
  "is_exception e = (e = BadAlloc \<or> e = ElemThrow)"

definition rollback :: "'a elem_type \<Rightarrow> ptr \<Rightarrow> nat \<Rightarrow> error \<Rightarrow> 'a heap \<Rightarrow> (unit, 'a heap) outcome" where
  "rollback T out k e h =
     (if is_exception e then
        (case destroy_n T out k h of
           Raise e' h' \<Rightarrow> Raise e' h'
         | Ok _ h' \<Rightarrow> Raise e h')
      else Raise e h)"

fun uninit_copy_from :: "'a elem_type \<Rightarrow> ptr \<Rightarrow> nat \<Rightarrow> ptr \<Rightarrow> nat \<Rightarrow> 'a heap \<Rightarrow> (unit, 'a heap) outcome" where
  "uninit_copy_from T first 0 out k h = Ok () h"
| "uninit_copy_from T first (Suc n) out k h =
     (case copy_construct T first (ptr_add out k) h of
        Raise e h' \<Rightarrow> rollback T out k e h'
      | Ok _ h' \<Rightarrow> uninit_copy_from T (ptr_add first 1) n out (Suc k) h')"

definition uninitialized_copy_n :: "'a elem_type \<Rightarrow> ptr \<Rightarrow> nat \<Rightarrow> ptr \<Rightarrow> 'a heap \<Rightarrow> (unit, 'a heap) outcome" where
  "uninitialized_copy_n T first n out h = uninit_copy_from T first n out 0 h"

fun uninit_move_from :: "'a elem_type \<Rightarrow> ptr \<Rightarrow> nat \<Rightarrow> ptr \<Rightarrow> nat \<Rightarrow> 'a heap \<Rightarrow> (unit, 'a heap) outcome" where
  "uninit_move_from T first 0 out k h = Ok () h"
| "uninit_move_from T first (Suc n) out k h =
     (case move_construct T first (ptr_add out k) h of
        Raise e h' \<Rightarrow> rollback T out k e h'
      | Ok _ h' \<Rightarrow> uninit_move_from T (ptr_add first 1) n out (Suc k) h')"

definition uninitialized_move_n :: "'a elem_type \<Rightarrow> ptr \<Rightarrow> nat \<Rightarrow> ptr \<Rightarrow> 'a heap \<Rightarrow> (unit, 'a heap) outcome" where
  "uninitialized_move_n T first n out h = uninit_move_from T first n out 0 h"

fun uninit_value_from :: "'a elem_type \<Rightarrow> nat \<Rightarrow> ptr \<Rightarrow> nat \<Rightarrow> 'a heap \<Rightarrow> (unit, 'a heap) outcome" where
  "uninit_value_from T 0 out k h = Ok () h"
| "uninit_value_from T (Suc n) out k h =
     (case value_init T of
        None \<Rightarrow> rollback T out k ElemThrow h
      | Some x \<Rightarrow>
          (case construct_at (ptr_add out k) (Some x) h of
             Raise e h' \<Rightarrow> rollback T out k e h'
           | Ok _ h' \<Rightarrow> uninit_value_from T n out (Suc k) h'))"

definition uninitialized_value_construct_n :: "'a elem_type \<Rightarrow> ptr \<Rightarrow> nat \<Rightarrow> 'a heap \<Rightarrow> (unit, 'a heap) outcome" where
  "uninitialized_value_construct_n T out n h = uninit_value_from T n out 0 h"

text \<open>
  \<^verbatim>\<open>std::copy_n\<close>, and \<^verbatim>\<open>std::copy\<close> and \<^verbatim>\<open>std::move\<close> over a range: front to
  back, by assignment, with no clean-up when an assignment throws.
\<close>

fun copy_n :: "'a elem_type \<Rightarrow> ptr \<Rightarrow> nat \<Rightarrow> ptr \<Rightarrow> 'a heap \<Rightarrow> (unit, 'a heap) outcome" where
  "copy_n T first 0 out h = Ok () h"
| "copy_n T first (Suc n) out h =
     (case copy_assign T first out h of
        Raise e h' \<Rightarrow> Raise e h'
      | Ok _ h' \<Rightarrow> copy_n T (ptr_add first 1) n (ptr_add out 1) h')"

fun move_n :: "'a elem_type \<Rightarrow> ptr \<Rightarrow> nat \<Rightarrow> ptr \<Rightarrow> 'a heap \<Rightarrow> (unit, 'a heap) outcome" where
  "move_n T first 0 out h = Ok () h"
| "move_n T first (Suc n) out h =
     (case move_assign T first out h of
        Raise e h' \<Rightarrow> Raise e h'
      | Ok _ h' \<Rightarrow> move_n T (ptr_add first 1) n (ptr_add out 1) h')"

definition std_copy :: "'a elem_type \<Rightarrow> ptr \<Rightarrow> ptr \<Rightarrow> ptr \<Rightarrow> 'a heap \<Rightarrow> (unit, 'a heap) outcome" where
  "std_copy T first lst out h =
     (if off lst < off first then Raise MemFault h
      else copy_n T first (off lst - off first) out h)"

definition std_move :: "'a elem_type \<Rightarrow> ptr \<Rightarrow> ptr \<Rightarrow> ptr \<Rightarrow> 'a heap \<Rightarrow> (unit, 'a heap) outcome" where
  "std_move T first lst out h =
     (if off lst < off first then Raise MemFault h
      else move_n T first (off lst - off first) out h)"

text \<open>
  \<^verbatim>\<open>std::move_backward(first, last, d_last)\<close>: back to front, the element at
  \<open>first + n\<close> goes to \<open>d_first + n\<close>, where \<open>d_first\<close> is \<open>d_last - (last - first)\<close>.
\<close>

fun move_backward_n :: "'a elem_type \<Rightarrow> ptr \<Rightarrow> nat \<Rightarrow> ptr \<Rightarrow> 'a heap \<Rightarrow> (unit, 'a heap) outcome" where
  "move_backward_n T first 0 d_first h = Ok () h"
| "move_backward_n T first (Suc n) d_first h =
     (case move_assign T (ptr_add first n) (ptr_add d_first n) h of
        Raise e h' \<Rightarrow> Raise e h'
      | Ok _ h' \<Rightarrow> move_backward_n T first n d_first h')"

definition move_backward :: "'a elem_type \<Rightarrow> ptr \<Rightarrow> ptr \<Rightarrow> ptr \<Rightarrow> 'a heap \<Rightarrow> (unit, 'a heap) outcome" where
  "move_backward T first lst d_last h =
     (if off lst < off first \<or> off d_last < off lst - off first then Raise MemFault h
      else move_backward_n T first (off lst - off first)
             (Ptr (base d_last) (off d_last - (off lst - off first))) h)"

section \<open>RawMemory\<close>

text \<open>The fields \<^verbatim>\<open>buffer_\<close> and \<^verbatim>\<open>capacity_\<close>.\<close>

record raw_memory =
  rm_buffer :: "nat option"
  rm_capacity :: nat

text \<open>
  A \<^verbatim>\<open>size_t\<close> has 64 bits: arithmetic on it is modulo \<open>SIZE_MAX + 1\<close>.
\<close>

definition SIZE_MAX :: nat where
  "SIZE_MAX = 2 ^ 64 - 1"

definition size_t :: "nat \<Rightarrow> nat" where
  "size_t n = n mod (SIZE_MAX + 1)"

text \<open>
  \<^verbatim>\<open>operator new(bytes)\<close> throws \<^verbatim>\<open>std::bad_alloc\<close> when the free store has
  not that many bytes left. Otherwise it hands out a fresh block of that many bytes: as
  many raw slots as whole objects of type \<^verbatim>\<open>T\<close> fit into it.
\<close>

definition operator_new :: "'a elem_type \<Rightarrow> nat \<Rightarrow> 'a heap \<Rightarrow> (nat option, 'a heap) outcome" where
  "operator_new T bytes h =
     (if avail h * size_of T < bytes then Raise BadAlloc h
      else Ok (Some (next_addr h))
             (h\<lparr>blocks := (blocks h)(next_addr h \<mapsto> replicate (bytes div size_of T) raw_slot),
                next_addr := Suc (next_addr h),
                avail := avail h - bytes div size_of T\<rparr>))"

text \<open>
  \<^verbatim>\<open>Allocate(n)\<close>: null for \<open>n = 0\<close>, otherwise \<^verbatim>\<open>operator new(n * sizeof(T))\<close>.
  The product is a \<^verbatim>\<open>size_t\<close> and wraps around; nothing in the source compares
  \<open>n\<close> with the largest number of elements a block can hold.
\<close>

definition Allocate :: "'a elem_type \<Rightarrow> nat \<Rightarrow> 'a heap \<Rightarrow> (nat option, 'a heap) outcome" where
  "Allocate T n h =
     (if n \<noteq> 0 then operator_new T (size_t (n * size_of T)) h
      else Ok None h)"

definition Deallocate :: "nat option \<Rightarrow> 'a heap \<Rightarrow> 'a heap" where
  "Deallocate buf h =
     (case buf of
        None \<Rightarrow> h
      | Some a \<Rightarrow>
          (case blocks h a of
             None \<Rightarrow> h
           | Some b \<Rightarrow> h\<lparr>blocks := (blocks h)(a := None), avail := avail h + length b\<rparr>))"

definition RawMemory_default :: raw_memory where
  "RawMemory_default = \<lparr>rm_buffer = None, rm_capacity = 0\<rparr>"

definition RawMemory :: "'a elem_type \<Rightarrow> nat \<Rightarrow> 'a heap \<Rightarrow> (raw_memory, 'a heap) outcome" where
  "RawMemory T capacity h =
     (case Allocate T capacity h of
        Raise e h' \<Rightarrow> Raise e h'
      | Ok buf h' \<Rightarrow> Ok \<lparr>rm_buffer = buf, rm_capacity = capacity\<rparr> h')"

text \<open>
  Move construction and move assignment return the new value of the target and of the
  source. The assignment overwrites the target's pointer: the block it owned is not
  released.
\<close>

definition RawMemory_move :: "raw_memory \<Rightarrow> raw_memory \<times> raw_memory" where
  "RawMemory_move other = (\<lparr>rm_buffer = rm_buffer other, rm_capacity = rm_capacity other\<rparr>, \<lparr>rm_buffer = None, rm_capacity = 0\<rparr>)"

definition RawMemory_move_assign :: "raw_memory \<Rightarrow> raw_memory \<Rightarrow> raw_memory \<times> raw_memory" where
  "RawMemory_move_assign this rhs = (\<lparr>rm_buffer = rm_buffer rhs, rm_capacity = rm_capacity rhs\<rparr>, \<lparr>rm_buffer = None, rm_capacity = 0\<rparr>)"

definition RawMemory_dtor :: "raw_memory \<Rightarrow> 'a heap \<Rightarrow> 'a heap" where
  "RawMemory_dtor m h = Deallocate (rm_buffer m) h"

text \<open>\<^verbatim>\<open>operator+\<close> and \<^verbatim>\<open>operator[]\<close>; \<open>None\<close> when their assertion fails.\<close>

definition RawMemory_plus :: "raw_memory \<Rightarrow> nat \<Rightarrow> ptr option" where
  "RawMemory_plus m offset = (if offset \<le> rm_capacity m then Some (Ptr (rm_buffer m) offset) else None)"

definition RawMemory_index :: "raw_memory \<Rightarrow> nat \<Rightarrow> ptr option" where
  "RawMemory_index m index = (if index < rm_capacity m then Some (Ptr (rm_buffer m) index) else None)"

definition RawMemory_Swap :: "raw_memory \<Rightarrow> raw_memory \<Rightarrow> raw_memory \<times> raw_memory" where
  "RawMemory_Swap this other = (other, this)"

definition GetAddress :: "raw_memory \<Rightarrow> ptr" where
  "GetAddress m = Ptr (rm_buffer m) 0"

section \<open>Vector\<close>

text \<open>
  The fields \<^verbatim>\<open>data_\<close> and \<^verbatim>\<open>size_\<close>. Both \<^verbatim>\<open>size_\<close> and the capacity
  are of type \<^verbatim>\<open>size_t\<close>: \<^verbatim>\<open>++size_\<close>, \<^verbatim>\<open>size_ * 2\<close> and \<^verbatim>\<open>--size_\<close> are
  written with their wrap-around.
\<close>

record vector =
  vec_data :: raw_memory
  vec_size :: nat

text \<open>
  A member function works on the free store and on the object it is called on. It ends
  with the state of both: after a throw the fields are those the exception left.
  \<open>on_heap\<close> runs a step that touches the free store only, \<open>asserting\<close> a step guarded
  by an assertion of \<^verbatim>\<open>RawMemory\<close>, and \<open>with_local\<close> a step during which a local
  \<^verbatim>\<open>RawMemory\<close> is in scope: an exception runs its destructor on the way out.
\<close>

definition on_heap :: "('r, 'h) outcome \<Rightarrow> 'v \<Rightarrow> ('r \<Rightarrow> 'h \<Rightarrow> ('q, 'h \<times> 'v) outcome) \<Rightarrow> ('q, 'h \<times> 'v) outcome" where
  "on_heap m v k = (case m of Raise e h \<Rightarrow> Raise e (h, v) | Ok r h \<Rightarrow> k r h)"

definition asserting :: "'p option \<Rightarrow> 's \<Rightarrow> ('p \<Rightarrow> ('q, 's) outcome) \<Rightarrow> ('q, 's) outcome" where
  "asserting a s k = (case a of None \<Rightarrow> Raise AssertFail s | Some p \<Rightarrow> k p)"

definition unwind :: "error \<Rightarrow> raw_memory \<Rightarrow> 'a heap \<Rightarrow> 'a heap" where
  "unwind e m h = (if is_exception e then RawMemory_dtor m h else h)"

definition with_local :: "raw_memory \<Rightarrow> ('r, 'a heap) outcome \<Rightarrow> 'v \<Rightarrow> ('r \<Rightarrow> 'a heap \<Rightarrow> ('q, 'a heap \<times> 'v) outcome) \<Rightarrow> ('q, 'a heap \<times> 'v) outcome" where
  "with_local m r v k = (case r of Raise e h \<Rightarrow> Raise e (unwind e m h, v) | Ok x h \<Rightarrow> k x h)"

definition Size :: "vector \<Rightarrow> nat" where
  "Size v = vec_size v"

definition Capacity :: "vector \<Rightarrow> nat" where
  "Capacity v = rm_capacity (vec_data v)"

text \<open>\<^verbatim>\<open>begin()\<close> and \<^verbatim>\<open>end()\<close> (and \<^verbatim>\<open>cbegin()\<close>, \<^verbatim>\<open>cend()\<close>).\<close>

definition Vector_begin :: "vector \<Rightarrow> ptr" where
  "Vector_begin v = GetAddress (vec_data v)"

definition Vector_end :: "vector \<Rightarrow> ptr" where
  "Vector_end v = ptr_add (GetAddress (vec_data v)) (vec_size v)"

subsection \<open>Constructors, destructor, Swap\<close>

definition Vector_default :: vector where
  "Vector_default = \<lparr>vec_data = RawMemory_default, vec_size = 0\<rparr>"

definition Vector_sized :: "'a elem_type \<Rightarrow> nat \<Rightarrow> 'a heap \<Rightarrow> (vector, 'a heap) outcome" where
  "Vector_sized T n h =
     (case RawMemory T n h of
        Raise e h1 \<Rightarrow> Raise e h1
      | Ok d h1 \<Rightarrow>
          (case uninitialized_value_construct_n T (GetAddress d) n h1 of
             Raise e h2 \<Rightarrow> Raise e (unwind e d h2)
           | Ok _ h2 \<Rightarrow> Ok \<lparr>vec_data = d, vec_size = n\<rparr> h2))"

definition Vector_copy :: "'a elem_type \<Rightarrow> vector \<Rightarrow> 'a heap \<Rightarrow> (vector, 'a heap) outcome" where
  "Vector_copy T other h =
     (case RawMemory T (vec_size other) h of
        Raise e h1 \<Rightarrow> Raise e h1
      | Ok d h1 \<Rightarrow>
          (case uninitialized_copy_n T (Vector_begin other) (vec_size other) (GetAddress d) h1 of
             Raise e h2 \<Rightarrow> Raise e (unwind e d h2)
           | Ok _ h2 \<Rightarrow> Ok \<lparr>vec_data = d, vec_size = vec_size other\<rparr> h2))"

text \<open>The move constructor returns the new vector and what is left of \<open>other\<close>.\<close>

definition Vector_move :: "vector \<Rightarrow> vector \<times> vector" where
  "Vector_move other =
     (case RawMemory_move (vec_data other) of
        (d, od) \<Rightarrow> (\<lparr>vec_data = d, vec_size = vec_size other\<rparr>, \<lparr>vec_data = od, vec_size = 0\<rparr>))"

definition Vector_dtor :: "'a elem_type \<Rightarrow> vector \<Rightarrow> 'a heap \<Rightarrow> (unit, 'a heap) outcome" where
  "Vector_dtor T v h =
     (case destroy_n T (Vector_begin v) (vec_size v) h of
        Raise e h1 \<Rightarrow> Raise e h1
      | Ok _ h1 \<Rightarrow> Ok () (RawMemory_dtor (vec_data v) h1))"

definition Swap :: "vector \<Rightarrow> vector \<Rightarrow> vector \<times> vector" where
  "Swap this other =
     (case RawMemory_Swap (vec_data this) (vec_data other) of
        (d, od) \<Rightarrow> (\<lparr>vec_data = d, vec_size = vec_size other\<rparr>, \<lparr>vec_data = od, vec_size = vec_size this\<rparr>))"

subsection \<open>Reserve and Resize\<close>

definition Relocate :: "'a elem_type \<Rightarrow> ptr \<Rightarrow> nat \<Rightarrow> ptr \<Rightarrow> 'a heap \<Rightarrow> (unit, 'a heap) outcome" where
  "Relocate T InFirst dist OutFirst h =
     (if nothrow_move_constructible T \<or> \<not> copy_constructible T
      then uninitialized_move_n T InFirst dist OutFirst h
      else uninitialized_copy_n T InFirst dist OutFirst h)"

definition adopt :: "raw_memory \<Rightarrow> 'a heap \<times> vector \<Rightarrow> (unit, 'a heap \<times> vector) outcome" where
  "adopt new_data s =
     (case s of (h, v) \<Rightarrow>
        (case RawMemory_Swap (vec_data v) new_data of
           (d, nd) \<Rightarrow> Ok () (RawMemory_dtor nd h, v\<lparr>vec_data := d\<rparr>)))"

definition Reserve :: "'a elem_type \<Rightarrow> nat \<Rightarrow> 'a heap \<times> vector \<Rightarrow> (unit, 'a heap \<times> vector) outcome" where
  "Reserve T new_capacity s =
     (case s of (h, v) \<Rightarrow>
        if new_capacity \<le> Capacity v then Ok () s
        else
          on_heap (RawMemory T new_capacity h) v (\<lambda>new_data h1.
          with_local new_data (Relocate T (Vector_begin v) (vec_size v) (GetAddress new_data) h1) v (\<lambda>_ h2.
          with_local new_data (destroy_n T (Vector_begin v) (vec_size v) h2) v (\<lambda>_ h3.
          adopt new_data (h3, v)))))"

definition Resize :: "'a elem_type \<Rightarrow> nat \<Rightarrow> 'a heap \<times> vector \<Rightarrow> (unit, 'a heap \<times> vector) outcome" where
  "Resize T new_size s =
     (case s of (h, v) \<Rightarrow>
        if new_size = vec_size v then Ok () s
        else if new_size < vec_size v then
          on_heap (destroy_n T (ptr_add (GetAddress (vec_data v)) new_size) (vec_size v - new_size) h) v (\<lambda>_ h1.
          Ok () (h1, v\<lparr>vec_size := new_size\<rparr>))
        else
          (case (if Capacity v < new_size then Reserve T new_size s else Ok () s) of
             Raise e s1 \<Rightarrow> Raise e s1
           | Ok _ (h1, v1) \<Rightarrow>
               on_heap (uninitialized_value_construct_n T (Vector_end v1) (new_size - vec_size v1) h1) v1 (\<lambda>_ h2.
               Ok () (h2, v1\<lparr>vec_size := new_size\<rparr>))))"

subsection \<open>Emplace, Insert, PushBack\<close>

text \<open>
  \<^verbatim>\<open>ForwardConstruct(Iter, args...)\<close> runs \<^verbatim>\<open>new (Iter) T(args...)\<close>. The
  arguments are given by what the constructor makes of them: \<open>Some x\<close> when it builds
  the value \<open>x\<close>, \<open>None\<close> when it throws. They are taken not to refer into the
  vector's own storage.
\<close>

definition ForwardConstruct :: "ptr \<Rightarrow> 'a option \<Rightarrow> 'a heap \<Rightarrow> (unit, 'a heap) outcome" where
  "ForwardConstruct Iter args h =
     (case args of
        None \<Rightarrow> Raise ElemThrow h
      | Some x \<Rightarrow> construct_at Iter (Some x) h)"

definition by_copy :: "'a elem_type \<Rightarrow> 'a \<Rightarrow> 'a option" where
  "by_copy T x = (if copy_ctor_throws T (Some x) then None else Some x)"

definition by_move :: "'a elem_type \<Rightarrow> 'a \<Rightarrow> 'a option" where
  "by_move T x = (if \<not> nothrow_move_constructible T \<and> move_ctor_throws T (Some x) then None else Some x)"

text \<open>
  An iterator \<open>pos\<close> of the vector is given by \<open>dist\<close>, its distance from
  \<^verbatim>\<open>begin()\<close>. The three branches of \<^verbatim>\<open>Emplace\<close> come first, each up to the
  point where the branches join.

  Spare capacity, \<^verbatim>\<open>pos == nullptr || pos == end()\<close>:
\<close>

definition Emplace_at_end :: "'a elem_type \<Rightarrow> nat \<Rightarrow> 'a option \<Rightarrow> 'a heap \<times> vector \<Rightarrow> (unit, 'a heap \<times> vector) outcome" where
  "Emplace_at_end T dist args s =
     (case s of (h, v) \<Rightarrow>
        asserting (RawMemory_plus (vec_data v) dist) s (\<lambda>p.
        if nothrow_move_constructible T \<or> copy_constructible T then
          (case ForwardConstruct p args h of
             Raise e h1 \<Rightarrow>
               if is_exception e
               then on_heap (destroy_at T p h1) v (\<lambda>_ h2. Raise e (h2, v))
               else Raise e (h1, v)
           | Ok _ h1 \<Rightarrow> Ok () (h1, v))
        else on_heap (ForwardConstruct p args h) v (\<lambda>_ h1. Ok () (h1, v))))"

text \<open>Spare capacity, any other \<open>pos\<close>:\<close>

definition Emplace_in_middle :: "'a elem_type \<Rightarrow> nat \<Rightarrow> 'a option \<Rightarrow> 'a heap \<times> vector \<Rightarrow> (unit, 'a heap \<times> vector) outcome" where
  "Emplace_in_middle T dist args s =
     (case s of (h, v) \<Rightarrow>
        asserting (RawMemory_index (vec_data v) (vec_size v)) s (\<lambda>src.
        on_heap (move_construct T src (Vector_end v) h) v (\<lambda>_ h1.
        asserting (RawMemory_plus (vec_data v) dist) (h1, v) (\<lambda>from.
        on_heap (move_backward T from (Vector_end v) (ptr_add (Vector_end v) 1) h1) v (\<lambda>_ h2.
        asserting (RawMemory_plus (vec_data v) (vec_size v)) (h2, v) (\<lambda>q.
        on_heap (destroy_at T q h2) v (\<lambda>_ h3.
        asserting (RawMemory_plus (vec_data v) dist) (h3, v) (\<lambda>p.
        on_heap (ForwardConstruct p args h3) v (\<lambda>_ h4.
        Ok () (h4, v))))))))))"

text \<open>No spare capacity: the new capacity is \<^verbatim>\<open>size_ > 0 ? size_ * 2 : 1\<close>.\<close>

definition grown :: "nat \<Rightarrow> nat" where
  "grown n = (if 0 < n then size_t (n * 2) else 1)"

definition Emplace_grow :: "'a elem_type \<Rightarrow> nat \<Rightarrow> 'a option \<Rightarrow> 'a heap \<times> vector \<Rightarrow> (unit, 'a heap \<times> vector) outcome" where
  "Emplace_grow T dist args s =
     (case s of (h, v) \<Rightarrow>
        on_heap (RawMemory T (grown (vec_size v)) h) v (\<lambda>new_data h1.
        asserting (RawMemory_plus new_data dist) (h1, v) (\<lambda>p.
        with_local new_data (ForwardConstruct p args h1) v (\<lambda>_ h2.
        with_local new_data (Relocate T (Vector_begin v) dist (GetAddress new_data) h2) v (\<lambda>_ h3.
        with_local new_data
          (Relocate T (ptr_add (Vector_begin v) dist) (vec_size v - dist)
             (ptr_add (GetAddress new_data) (dist + 1)) h3) v (\<lambda>_ h4.
        with_local new_data (destroy_n T (Vector_begin v) (vec_size v) h4) v (\<lambda>_ h5.
        adopt new_data (h5, v))))))))"

definition Emplace :: "'a elem_type \<Rightarrow> nat \<Rightarrow> 'a option \<Rightarrow> 'a heap \<times> vector \<Rightarrow> (ptr, 'a heap \<times> vector) outcome" where
  "Emplace T dist args s =
     (case s of (h, v) \<Rightarrow>
        if vec_size v < dist then Raise AssertFail s
        else
          (case (if vec_size v \<noteq> Capacity v then
                   (if ptr_add (Vector_begin v) dist = nullptr \<or> dist = vec_size v
                    then Emplace_at_end T dist args s
                    else Emplace_in_middle T dist args s)
                 else Emplace_grow T dist args s) of
             Raise e s1 \<Rightarrow> Raise e s1
           | Ok _ (h1, v1) \<Rightarrow>
               Ok (ptr_add (Vector_begin (v1\<lparr>vec_size := size_t (vec_size v1 + 1)\<rparr>)) dist)
                  (h1, v1\<lparr>vec_size := size_t (vec_size v1 + 1)\<rparr>)))"

definition EmplaceBack :: "'a elem_type \<Rightarrow> 'a option \<Rightarrow> 'a heap \<times> vector \<Rightarrow> (ptr, 'a heap \<times> vector) outcome" where
  "EmplaceBack T args s = Emplace T (vec_size (snd s)) args s"

text \<open>\<^verbatim>\<open>PushBack(const T&)\<close> and \<^verbatim>\<open>PushBack(T&&)\<close>; they return nothing.\<close>

definition drop_result :: "('r, 's) outcome \<Rightarrow> (unit, 's) outcome" where
  "drop_result m = (case m of Raise e s \<Rightarrow> Raise e s | Ok _ s \<Rightarrow> Ok () s)"

definition PushBack :: "'a elem_type \<Rightarrow> 'a \<Rightarrow> 'a heap \<times> vector \<Rightarrow> (unit, 'a heap \<times> vector) outcome" where
  "PushBack T x s = drop_result (EmplaceBack T (by_copy T x) s)"

definition PushBack_move :: "'a elem_type \<Rightarrow> 'a \<Rightarrow> 'a heap \<times> vector \<Rightarrow> (unit, 'a heap \<times> vector) outcome" where
  "PushBack_move T x s = drop_result (EmplaceBack T (by_move T x) s)"

text \<open>\<^verbatim>\<open>Insert(pos, const T&)\<close> and \<^verbatim>\<open>Insert(pos, T&&)\<close>.\<close>

definition Insert :: "'a elem_type \<Rightarrow> nat \<Rightarrow> 'a \<Rightarrow> 'a heap \<times> vector \<Rightarrow> (ptr, 'a heap \<times> vector) outcome" where
  "Insert T dist x s = Emplace T dist (by_copy T x) s"

definition Insert_move :: "'a elem_type \<Rightarrow> nat \<Rightarrow> 'a \<Rightarrow> 'a heap \<times> vector \<Rightarrow> (ptr, 'a heap \<times> vector) outcome" where
  "Insert_move T dist x s = Emplace T dist (by_move T x) s"

subsection \<open>PopBack and Erase\<close>

text \<open>
  \<^verbatim>\<open>--size_\<close>: from 0 it wraps around, and the assertion of \<^verbatim>\<open>operator+\<close> then
  fails.
\<close>

definition size_dec :: "nat \<Rightarrow> nat" where
  "size_dec n = (if n = 0 then SIZE_MAX else n - 1)"

definition PopBack :: "'a elem_type \<Rightarrow> 'a heap \<times> vector \<Rightarrow> (unit, 'a heap \<times> vector) outcome" where
  "PopBack T s =
     (case s of (h, v) \<Rightarrow>
        (case v\<lparr>vec_size := size_dec (vec_size v)\<rparr> of v1 \<Rightarrow>
           asserting (RawMemory_plus (vec_data v1) (vec_size v1)) (h, v1) (\<lambda>p.
           on_heap (destroy_at T p h) v1 (\<lambda>_ h1.
           Ok () (h1, v1)))))"

text \<open>
  \<^verbatim>\<open>Erase\<close> is declared \<^verbatim>\<open>noexcept(std::is_nothrow_move_assignable_v<T>)\<close>: for
  such a type an exception from the shift does not leave the function.
\<close>

definition Erase :: "'a elem_type \<Rightarrow> nat \<Rightarrow> 'a heap \<times> vector \<Rightarrow> (ptr, 'a heap \<times> vector) outcome" where
  "Erase T dist s =
     (case s of (h, v) \<Rightarrow>
        if vec_size v < dist then Raise AssertFail s
        else
          (case ptr_add (Vector_begin v) dist of iter \<Rightarrow>
             (case (if nothrow_move_constructible T \<or> \<not> copy_constructible T
                    then std_move T (ptr_add iter 1) (Vector_end v) iter h
                    else std_copy T (ptr_add iter 1) (Vector_end v) iter h) of
                Raise e h1 \<Rightarrow>
                  if is_exception e \<and> nothrow_move_assignable T then Raise Terminate (h1, v)
                  else Raise e (h1, v)
              | Ok _ h1 \<Rightarrow>
                  (case PopBack T (h1, v) of
                     Raise e s2 \<Rightarrow> Raise e s2
                   | Ok _ (h2, v2) \<Rightarrow> Ok (ptr_add (Vector_begin v2) dist) (h2, v2)))))"

text \<open>\<^verbatim>\<open>operator[]\<close>: the address of the element, \<open>None\<close> when the assertion fails.\<close>

definition Vector_index :: "vector \<Rightarrow> nat \<Rightarrow> ptr option" where
  "Vector_index v index =
     (if index < vec_size v then RawMemory_index (vec_data v) index else None)"

subsection \<open>Assignment\<close>

text \<open>
  The assignment operators compare the addresses of two objects, so they work on a
  store of \<^verbatim>\<open>Vector\<close> objects: \<open>this\<close> and \<open>rhs\<close> are addresses in it, and the same
  address is the same object.
\<close>

definition Vector_copy_assign :: "'a elem_type \<Rightarrow> nat \<Rightarrow> nat \<Rightarrow> 'a heap \<times> (nat \<Rightarrow> vector) \<Rightarrow> (unit, 'a heap \<times> (nat \<Rightarrow> vector)) outcome" where
  "Vector_copy_assign T this rhs s =
     (case s of (h, objs) \<Rightarrow>
        if this \<noteq> rhs then
          (if Capacity (objs this) < vec_size (objs rhs) then
             on_heap (Vector_copy T (objs rhs) h) objs (\<lambda>rhs_copy h1.
             (case Swap (objs this) rhs_copy of
                (v1, c1) \<Rightarrow>
                  on_heap (Vector_dtor T c1 h1) (objs(this := v1)) (\<lambda>_ h2.
                  Ok () (h2, objs(this := v1)))))
           else
             on_heap
               (copy_n T (Vector_begin (objs rhs)) (min (vec_size (objs rhs)) (vec_size (objs this)))
                  (Vector_begin (objs this)) h) objs (\<lambda>_ h1.
             on_heap
               (if vec_size (objs rhs) < vec_size (objs this)
                then destroy_n T (ptr_add (Vector_begin (objs this)) (vec_size (objs rhs)))
                       (vec_size (objs this) - vec_size (objs rhs)) h1
                else uninitialized_copy_n T (ptr_add (Vector_begin (objs rhs)) (vec_size (objs this)))
                       (vec_size (objs rhs) - vec_size (objs this)) (Vector_end (objs this)) h1) objs (\<lambda>_ h2.
             Ok () (h2, objs(this := (objs this)\<lparr>vec_size := vec_size (objs rhs)\<rparr>)))))
        else Ok () s)"

definition Vector_move_assign :: "nat \<Rightarrow> nat \<Rightarrow> 'a heap \<times> (nat \<Rightarrow> vector) \<Rightarrow> 'a heap \<times> (nat \<Rightarrow> vector)" where
  "Vector_move_assign this rhs s =
     (case s of (h, objs) \<Rightarrow>
        if this \<noteq> rhs then
          (case RawMemory_move_assign (vec_data (objs this)) (vec_data (objs rhs)) of
             (d, rd) \<Rightarrow>
               (h, objs(this := \<lparr>vec_data = d, vec_size = vec_size (objs rhs)\<rparr>,
                        rhs := \<lparr>vec_data = rd, vec_size = 0\<rparr>)))
        else s)"

section \<open>What a caller can observe\<close>

text \<open>
  The storage of a vector, its elements (the slots below \<^verbatim>\<open>size_\<close>) and their values.
\<close>

definition slots :: "'a heap \<Rightarrow> vector \<Rightarrow> 'a slot list" where
  "slots h v =
     (case rm_buffer (vec_data v) of
        None \<Rightarrow> []
      | Some a \<Rightarrow> (case blocks h a of None \<Rightarrow> [] | Some b \<Rightarrow> b))"

definition elements :: "'a heap \<Rightarrow> vector \<Rightarrow> 'a slot list" where
  "elements h v = take (vec_size v) (slots h v)"

definition contents :: "'a heap \<Rightarrow> vector \<Rightarrow> 'a option list" where
  "contents h v = map content (elements h v)"

text \<open>
  The invariant of the class: \<^verbatim>\<open>size_\<close> is at most the capacity, the buffer is a
  block of the free store with one slot per unit of capacity, handed out before now, and
  exactly the slots below \<^verbatim>\<open>size_\<close> hold a live object. A vector of capacity 0 may
  have a null buffer.
\<close>

definition vector_inv :: "'a heap \<Rightarrow> vector \<Rightarrow> bool" where
  "vector_inv h v =
     (vec_size v \<le> Capacity v \<and>
      (case rm_buffer (vec_data v) of
         None \<Rightarrow> Capacity v = 0
       | Some a \<Rightarrow>
           a < next_addr h \<and>
           (case blocks h a of
              None \<Rightarrow> False
            | Some b \<Rightarrow>
                length b = Capacity v \<and>
                map alive b = replicate (vec_size v) True @ replicate (Capacity v - vec_size v) False)))"

text \<open>Replacing one block of the free store.\<close>

definition set_block :: "nat \<Rightarrow> 'a slot list \<Rightarrow> 'a heap \<Rightarrow> 'a heap" where
  "set_block a b h = h\<lparr>blocks := (blocks h)(a \<mapsto> b)\<rparr>"

subsection \<open>Two element types and a free store to run the code on\<close>

text \<open>
  \<^verbatim>\<open>int\<close>: four bytes, nothing throws, a moved-from \<^verbatim>\<open>int\<close> keeps its value, the
  destructor is trivial. \<open>str_type\<close> stands for a type that owns a resource, such as
  \<^verbatim>\<open>std::string\<close> (32 bytes): its move operations are \<^verbatim>\<open>noexcept\<close>, a moved-from
  string is empty, and the destructor releases the characters the string owned, so that
  no value can be read from a destroyed string. (An implementation may keep a short
  string inside the object itself, and its characters then stay behind in the storage;
  \<open>long_string\<close> gives strings of 41 characters, which live in a buffer of their own.)
  \<open>fragile_type\<close> is a class of four bytes that is relocated by copying: its move
  operations throw, copying the value 13 throws, and it has a destructor of its own.
\<close>

definition int_type :: "int elem_type" where
  "int_type =
     \<lparr>size_of = 4,
      nothrow_move_constructible = True, nothrow_move_assignable = True,
      copy_constructible = True,
      copy_ctor_throws = (\<lambda>_. False), copy_assign_throws = (\<lambda>_. False),
      move_ctor_throws = (\<lambda>_. False), move_assign_throws = (\<lambda>_. False),
      moved_from = (\<lambda>x. x), trivial_dtor = True, value_init = Some 0\<rparr>"

definition str_type :: "string elem_type" where
  "str_type =
     \<lparr>size_of = 32,
      nothrow_move_constructible = True, nothrow_move_assignable = True,
      copy_constructible = True,
      copy_ctor_throws = (\<lambda>_. False), copy_assign_throws = (\<lambda>_. False),
      move_ctor_throws = (\<lambda>_. False), move_assign_throws = (\<lambda>_. False),
      moved_from = (\<lambda>_. []), trivial_dtor = False, value_init = Some []\<rparr>"

definition long_string :: "char \<Rightarrow> string" where
  "long_string c = replicate 41 c"

definition empty_heap :: "nat \<Rightarrow> 'a heap" where
  "empty_heap n = \<lparr>blocks = (\<lambda>_. None), next_addr = 0, avail = n\<rparr>"

definition fragile_type :: "int elem_type" where
  "fragile_type =
     \<lparr>size_of = 4,
      nothrow_move_constructible = False, nothrow_move_assignable = False,
      copy_constructible = True,
      copy_ctor_throws = (\<lambda>c. c = Some 13), copy_assign_throws = (\<lambda>c. c = Some 13),
      move_ctor_throws = (\<lambda>_. True), move_assign_throws = (\<lambda>_. True),
      moved_from = (\<lambda>x. x), trivial_dtor = False, value_init = Some 0\<rparr>"

definition live :: "'a \<Rightarrow> 'a slot" where
  "live x = Slot True (Some x)"

definition heap_of :: "'a slot list list \<Rightarrow> nat \<Rightarrow> 'a heap" where
  "heap_of bs n =
     \<lparr>blocks = (\<lambda>a. if a < length bs then Some (bs ! a) else None),
      next_addr = length bs, avail = n\<rparr>"

definition vector_at :: "nat \<Rightarrow> nat \<Rightarrow> nat \<Rightarrow> vector" where
  "vector_at a cap n = \<lparr>vec_data = \<lparr>rm_buffer = Some a, rm_capacity = cap\<rparr>, vec_size = n\<rparr>"

text \<open>
  A sequence of calls on one vector, run as long as each returns, and what is seen after
  it: the values and the capacity, the slots, or a property of the final state.
\<close>

datatype 'a invocation =
  CallPushBack 'a | CallInsert nat 'a | CallErase nat | CallPopBack | CallReserve nat

fun invoke :: "'a elem_type \<Rightarrow> 'a invocation \<Rightarrow> 'a heap \<times> vector \<Rightarrow> (unit, 'a heap \<times> vector) outcome" where
  "invoke T (CallPushBack x) s = PushBack T x s"
| "invoke T (CallInsert dist x) s = drop_result (Insert T dist x s)"
| "invoke T (CallErase dist) s = drop_result (Erase T dist s)"
| "invoke T CallPopBack s = PopBack T s"
| "invoke T (CallReserve n) s = Reserve T n s"

fun run :: "'a elem_type \<Rightarrow> 'a invocation list \<Rightarrow> 'a heap \<times> vector \<Rightarrow> (unit, 'a heap \<times> vector) outcome" where
  "run T [] s = Ok () s"
| "run T (c # cs) s = (case invoke T c s of Raise e s1 \<Rightarrow> Raise e s1 | Ok _ s1 \<Rightarrow> run T cs s1)"

definition returns_with :: "('r, 'a heap \<times> vector) outcome \<Rightarrow> 'a option list \<Rightarrow> nat \<Rightarrow> bool" where
  "returns_with m xs cap =
     (case m of
        Ok _ (h, v) \<Rightarrow> contents h v = xs \<and> Size v = length xs \<and> Capacity v = cap
      | Raise _ _ \<Rightarrow> False)"

definition final_slots :: "('r, 'a heap \<times> vector) outcome \<Rightarrow> ('a slot list \<times> nat) option" where
  "final_slots m = (case m of Ok _ (h, v) \<Rightarrow> Some (slots h v, Size v) | Raise _ _ \<Rightarrow> None)"

definition holds_after :: "('r, 'a heap \<times> vector) outcome \<Rightarrow> ('a heap \<Rightarrow> vector \<Rightarrow> bool) \<Rightarrow> bool" where
  "holds_after m P = (case m of Ok _ (h, v) \<Rightarrow> P h v | Raise _ _ \<Rightarrow> False)"

definition fails_after :: "('r, 'a heap \<times> vector) outcome \<Rightarrow> ('a heap \<Rightarrow> vector \<Rightarrow> bool) \<Rightarrow> bool" where
  "fails_after m P = (case m of Ok _ (h, v) \<Rightarrow> \<not> P h v | Raise _ _ \<Rightarrow> False)"

text \<open>
  How a run ended when it did not return, and the values, the size and the capacity of
  the vector at that point.
\<close>

definition failure :: "('r, 's) outcome \<Rightarrow> error option" where
  "failure m = (case m of Ok _ _ \<Rightarrow> None | Raise e _ \<Rightarrow> Some e)"

definition stops_with :: "('r, 'a heap \<times> vector) outcome \<Rightarrow> error \<Rightarrow> 'a option list \<Rightarrow> nat \<Rightarrow> bool" where
  "stops_with m e xs cap =
     (case m of
        Ok _ _ \<Rightarrow> False
      | Raise e' (h, v) \<Rightarrow> e' = e \<and> contents h v = xs \<and> Size v = length xs \<and> Capacity v = cap)"

text \<open>
  Whether relocating an element throws: by the move constructor when it is
  \<^verbatim>\<open>noexcept\<close> or the type cannot be copied, by the copy constructor otherwise.
\<close>

definition relocate_fails :: "'a elem_type \<Rightarrow> 'a slot \<Rightarrow> bool" where
  "relocate_fails T s =
     (if nothrow_move_constructible T \<or> \<not> copy_constructible T
      then move_ctor_fails T s
      else throws_on (copy_ctor_throws T) s)"

text \<open>
  Whether the assignment that \<^verbatim>\<open>Erase\<close> uses to shift an element throws on it: the
  move assignment when the move constructor is \<^verbatim>\<open>noexcept\<close> or the type cannot be
  copied, the copy assignment otherwise.
\<close>

definition shift_throws :: "'a elem_type \<Rightarrow> 'a slot \<Rightarrow> bool" where
  "shift_throws T s =
     (if nothrow_move_constructible T \<or> \<not> copy_constructible T
      then move_assign_fails T s
      else throws_on (copy_assign_throws T) s)"

section \<open>Basic facts about the free store\<close>

lemma blocks_set_block: "blocks (set_block a b h) x = (if x = a then Some b else blocks h x)"
  by (simp add: set_block_def)

lemma set_block_twice: "set_block a b' (set_block a b h) = set_block a b' h"
  by (simp add: set_block_def)

lemma set_block_fields: "next_addr (set_block a b h) = next_addr h" "avail (set_block a b h) = avail h"
  by (simp_all add: set_block_def)

lemma set_block_same: "blocks h a = Some b \<Longrightarrow> set_block a b h = h"
  by (simp add: set_block_def fun_upd_idem)

lemma set_block_swap:
  "a \<noteq> a' \<Longrightarrow> set_block a x (set_block a' y h) = set_block a' y (set_block a x h)"
  by (simp add: set_block_def fun_upd_twist)

lemma set_block_nested:
  "a \<noteq> a' \<Longrightarrow>
   set_block a x (set_block a' y (set_block a x0 (set_block a' y0 h))) = set_block a x (set_block a' y h)"
  by (simp add: set_block_swap [of a a'] set_block_twice)

lemma Deallocate_block:
  "blocks h a = Some b \<Longrightarrow>
   Deallocate (Some a) h = h\<lparr>blocks := (blocks h)(a := None), avail := avail h + length b\<rparr>"
  by (simp add: Deallocate_def)

lemma load_in: "blocks h a = Some b \<Longrightarrow> i < length b \<Longrightarrow> load h (Ptr (Some a) i) = Some (b ! i)"
  by (simp add: load_def)

lemma store_in:
  "blocks h a = Some b \<Longrightarrow> i < length b \<Longrightarrow> store (Ptr (Some a) i) s h = Some (set_block a (b[i := s]) h)"
  by (simp add: store_def set_block_def)

lemma destroy_at_in:
  "blocks h a = Some b \<Longrightarrow> i < length b \<Longrightarrow> trivial_dtor T \<or> alive (b ! i) \<Longrightarrow>
   destroy_at T (Ptr (Some a) i) h = Ok () (set_block a (b[i := destroyed T (b ! i)]) h)"
  by (auto simp: destroy_at_def load_in store_in)

lemma destroy_at_dead:
  "blocks h a = Some b \<Longrightarrow> i < length b \<Longrightarrow> \<not> trivial_dtor T \<Longrightarrow> \<not> alive (b ! i) \<Longrightarrow>
   destroy_at T (Ptr (Some a) i) h = Raise LifetimeFault h"
  by (simp add: destroy_at_def load_in)

lemma destroyed_trivial: "trivial_dtor T \<Longrightarrow> \<not> alive s \<Longrightarrow> destroyed T s = s"
  by (cases s) (simp add: destroyed_def)

lemma size_t_small: "n \<le> SIZE_MAX \<Longrightarrow> size_t n = n"
  by (simp add: size_t_def)

lemma size_t_Suc: "n < SIZE_MAX \<Longrightarrow> size_t (Suc n) = Suc n"
  by (simp add: size_t_def)

lemma le_SIZE_MAX: "n \<le> 255 \<Longrightarrow> n \<le> SIZE_MAX"
  by (simp add: SIZE_MAX_def)

lemma ptr_add_Ptr: "ptr_add (Ptr x i) k = Ptr x (i + k)"
  by (simp add: ptr_add_def)

lemma construct_at_in:
  "blocks h a = Some b \<Longrightarrow> i < length b \<Longrightarrow>
   construct_at (Ptr (Some a) i) c h = Ok () (set_block a (b[i := Slot True c]) h)"
  by (simp add: construct_at_def store_in)

lemma set_content_in:
  "blocks h a = Some b \<Longrightarrow> i < length b \<Longrightarrow>
   set_content (Ptr (Some a) i) c h = Ok () (set_block a (b[i := Slot (alive (b ! i)) c]) h)"
  by (simp add: set_content_def load_in store_in)

lemma copy_construct_in:
  "blocks h a' = Some src \<Longrightarrow> j < length src \<Longrightarrow> blocks h a = Some dst \<Longrightarrow> i < length dst \<Longrightarrow>
   copy_construct T (Ptr (Some a') j) (Ptr (Some a) i) h =
     (if throws_on (copy_ctor_throws T) (src ! j) then Raise ElemThrow h
      else Ok () (set_block a (dst[i := Slot True (content (src ! j))]) h))"
  by (simp add: copy_construct_def load_in construct_at_in)

lemma copy_assign_in:
  "blocks h a' = Some src \<Longrightarrow> j < length src \<Longrightarrow> blocks h a = Some dst \<Longrightarrow> i < length dst \<Longrightarrow>
   copy_assign T (Ptr (Some a') j) (Ptr (Some a) i) h =
     (if throws_on (copy_assign_throws T) (src ! j) then Raise ElemThrow h
      else Ok () (set_block a (dst[i := Slot (alive (dst ! i)) (content (src ! j))]) h))"
  by (simp add: copy_assign_def load_in set_content_in)

lemma move_assign_in:
  "blocks h a = Some b \<Longrightarrow> j < length b \<Longrightarrow> i < length b \<Longrightarrow> i \<noteq> j \<Longrightarrow>
   move_assign T (Ptr (Some a) j) (Ptr (Some a) i) h =
     (if move_assign_fails T (b ! j) then Raise ElemThrow h
      else Ok () (set_block a (b[i := Slot (alive (b ! i)) (content (b ! j)),
                               j := Slot (alive (b ! j)) (map_option (moved_from T) (content (b ! j)))]) h))"
  by (simp add: move_assign_def load_in set_content_in blocks_set_block set_block_twice)

lemma move_construct_self:
  "blocks h a = Some b \<Longrightarrow> i < length b \<Longrightarrow> \<not> move_ctor_fails T (b ! i) \<Longrightarrow>
   move_construct T (Ptr (Some a) i) (Ptr (Some a) i) h =
     Ok () (set_block a (b[i := Slot True (map_option (moved_from T) (content (b ! i)))]) h)"
  by (simp add: move_construct_def load_in construct_at_in set_content_in blocks_set_block set_block_twice)

lemma move_construct_cross:
  "blocks h a' = Some src \<Longrightarrow> j < length src \<Longrightarrow> blocks h a = Some dst \<Longrightarrow> i < length dst \<Longrightarrow>
   a' \<noteq> a \<Longrightarrow>
   move_construct T (Ptr (Some a') j) (Ptr (Some a) i) h =
     (if move_ctor_fails T (src ! j) then Raise ElemThrow h
      else Ok () (set_block a (dst[i := Slot True (content (src ! j))])
                   (set_block a' (src[j := Slot (alive (src ! j)) (map_option (moved_from T) (content (src ! j)))]) h)))"
  by (simp add: move_construct_def load_in construct_at_in set_content_in blocks_set_block
      set_block_swap [of a' a])

section \<open>Facts about the invariant\<close>

lemma vector_inv_buffer:
  assumes "vector_inv h v" "0 < Capacity v"
  obtains a b where "rm_buffer (vec_data v) = Some a" "blocks h a = Some b" "length b = Capacity v"
    "a < next_addr h"
    "map alive b = replicate (vec_size v) True @ replicate (Capacity v - vec_size v) False"
    "vec_size v \<le> Capacity v"
  using assms by (auto simp: vector_inv_def split: option.splits)

lemma alive_nth:
  assumes "map alive b = replicate n True @ replicate (length b - n) False" "i < length b"
  shows "alive (b ! i) = (i < n)"
proof -
  have "alive (b ! i) = map alive b ! i" using assms(2) by simp
  also have "\<dots> = (i < n)" using assms by (simp add: nth_append)
  finally show ?thesis .
qed

lemma map_alive_update:
  assumes "i < length b" "alive s = alive (b ! i)"
  shows "map alive (b[i := s]) = map alive b"
  using assms by (simp add: map_update list_update_same_conv)

lemma alive_destroyed: "alive (destroyed T s) = False"
  by (simp add: destroyed_def)

lemma alive_nth_eq:
  assumes "map alive b' = map alive b" "i < length b"
  shows "alive (b' ! i) = alive (b ! i)"
proof -
  have "length b' = length b" using assms(1) by (metis length_map)
  then have "alive (b' ! i) = map alive b' ! i" using assms(2) by simp
  also have "\<dots> = alive (b ! i)" using assms by simp
  finally show ?thesis .
qed

lemma vector_inv_slots:
  assumes "vector_inv h v" "0 < Capacity v"
  obtains a where "rm_buffer (vec_data v) = Some a" "blocks h a = Some (slots h v)"
    "length (slots h v) = Capacity v" "a < next_addr h"
  using assms by (auto simp: vector_inv_def slots_def split: option.splits)

lemma vector_inv_alive:
  assumes "vector_inv h v" "k < Capacity v"
  shows "alive (slots h v ! k) = (k < vec_size v)"
proof -
  from assms have "0 < Capacity v" by simp
  from vector_inv_buffer [OF assms(1) this] obtain a b where
    "rm_buffer (vec_data v) = Some a" "blocks h a = Some b" "length b = Capacity v"
    "map alive b = replicate (vec_size v) True @ replicate (Capacity v - vec_size v) False"
    by blast
  then show ?thesis
    using alive_nth [of b "vec_size v" k] assms(2) by (simp add: slots_def)
qed

lemma vector_invI:
  assumes "rm_buffer (vec_data v) = Some a" "a < next_addr h" "blocks h a = Some b"
    "length b = Capacity v" "vec_size v \<le> Capacity v"
    "\<forall>k < Capacity v. alive (b ! k) = (k < vec_size v)"
  shows "vector_inv h v"
proof -
  have "map alive b = replicate (vec_size v) True @ replicate (Capacity v - vec_size v) False"
    using assms(4,5,6) by (auto simp: list_eq_iff_nth_eq nth_append)
  then show ?thesis using assms by (simp add: vector_inv_def)
qed

lemma shift_throws_content:
  "content s = content s' \<Longrightarrow> shift_throws T s = shift_throws T s'"
  by (simp add: shift_throws_def move_assign_fails_def throws_on_def)

lemma contents_nth:
  "vector_inv h v \<Longrightarrow> k < vec_size v \<Longrightarrow> contents h v ! k = content (slots h v ! k)"
  by (auto simp: contents_def elements_def vector_inv_def slots_def split: option.splits)

lemma contents_length:
  "vector_inv h v \<Longrightarrow> length (contents h v) = vec_size v"
  by (auto simp: contents_def elements_def vector_inv_def slots_def split: option.splits)

section \<open>The standard algorithms on blocks of the free store\<close>

lemma destroy_n_in:
  "blocks h a = Some b \<Longrightarrow> i + n \<le> length b \<Longrightarrow>
   trivial_dtor T \<or> (\<forall>k. i \<le> k \<and> k < i + n \<longrightarrow> alive (b ! k)) \<Longrightarrow>
   \<exists>b'. destroy_n T (Ptr (Some a) i) n h = Ok () (set_block a b' h) \<and> length b' = length b \<and>
        (\<forall>k < length b. b' ! k = (if i \<le> k \<and> k < i + n then destroyed T (b ! k) else b ! k))"
proof (induction n arbitrary: i h b)
  case 0
  then show ?case by (intro exI [of _ b]) (auto simp: set_block_same)
next
  case (Suc n)
  let ?b1 = "b[i := destroyed T (b ! i)]"
  let ?h1 = "set_block a ?b1 h"
  have "trivial_dtor T \<or> alive (b ! i)"
    using Suc.prems(3) by auto
  then have step: "destroy_at T (Ptr (Some a) i) h = Ok () ?h1"
    using Suc.prems by (simp add: destroy_at_in)
  have "blocks ?h1 a = Some ?b1" "Suc i + n \<le> length ?b1"
    "trivial_dtor T \<or> (\<forall>k. Suc i \<le> k \<and> k < Suc i + n \<longrightarrow> alive (?b1 ! k))"
    using Suc.prems by (auto simp: blocks_set_block)
  from Suc.IH [OF this] obtain b' where
    run: "destroy_n T (Ptr (Some a) (Suc i)) n ?h1 = Ok () (set_block a b' ?h1)" and
    len: "length b' = length ?b1" and
    nth: "\<forall>k < length ?b1. b' ! k = (if Suc i \<le> k \<and> k < Suc i + n then destroyed T (?b1 ! k) else ?b1 ! k)"
    by blast
  have "destroy_n T (Ptr (Some a) i) (Suc n) h = Ok () (set_block a b' h)"
    using step run by (simp add: ptr_add_Ptr set_block_twice)
  moreover have "length b' = length b" using len by simp
  moreover have "\<forall>k < length b. b' ! k = (if i \<le> k \<and> k < i + Suc n then destroyed T (b ! k) else b ! k)"
  proof (intro allI impI)
    fix k assume k: "k < length b"
    show "b' ! k = (if i \<le> k \<and> k < i + Suc n then destroyed T (b ! k) else b ! k)"
    proof (cases "k = i")
      case True
      then show ?thesis using nth k by simp
    next
      case False
      then show ?thesis using nth k by (auto simp: nth_list_update)
    qed
  qed
  ultimately show ?case by blast
qed

lemma uninit_copy_from_ok:
  "blocks h a' = Some src \<Longrightarrow> blocks h a = Some dst \<Longrightarrow> a' \<noteq> a \<Longrightarrow>
   j + n \<le> length src \<Longrightarrow> out + k + n \<le> length dst \<Longrightarrow>
   \<forall>t < n. \<not> throws_on (copy_ctor_throws T) (src ! (j + t)) \<Longrightarrow>
   \<exists>dst'. uninit_copy_from T (Ptr (Some a') j) n (Ptr (Some a) out) k h = Ok () (set_block a dst' h) \<and>
          length dst' = length dst \<and>
          (\<forall>i < length dst. dst' ! i =
             (if out + k \<le> i \<and> i < out + k + n then Slot True (content (src ! (j + (i - (out + k))))) else dst ! i))"
proof (induction n arbitrary: j k h dst)
  case 0
  then show ?case by (intro exI [of _ dst]) (auto simp: set_block_same)
next
  case (Suc n)
  let ?d1 = "dst[out + k := Slot True (content (src ! j))]"
  let ?h1 = "set_block a ?d1 h"
  have nothrow: "\<not> throws_on (copy_ctor_throws T) (src ! j)"
    using Suc.prems(6) by (metis add.right_neutral zero_less_Suc)
  have step: "copy_construct T (Ptr (Some a') j) (Ptr (Some a) (out + k)) h = Ok () ?h1"
    using Suc.prems nothrow by (simp add: copy_construct_in)
  have pre: "blocks ?h1 a' = Some src" "blocks ?h1 a = Some ?d1" "Suc j + n \<le> length src"
    "out + Suc k + n \<le> length ?d1" "\<forall>t < n. \<not> throws_on (copy_ctor_throws T) (src ! (Suc j + t))"
    using Suc.prems by (auto simp: blocks_set_block)
  from Suc.IH [OF pre(1,2) Suc.prems(3) pre(3,4,5)] obtain dst' where
    run: "uninit_copy_from T (Ptr (Some a') (Suc j)) n (Ptr (Some a) out) (Suc k) ?h1 = Ok () (set_block a dst' ?h1)" and
    len: "length dst' = length ?d1" and
    nth: "\<forall>i < length ?d1. dst' ! i =
             (if out + Suc k \<le> i \<and> i < out + Suc k + n then Slot True (content (src ! (Suc j + (i - (out + Suc k))))) else ?d1 ! i)"
    by blast
  have "uninit_copy_from T (Ptr (Some a') j) (Suc n) (Ptr (Some a) out) k h = Ok () (set_block a dst' h)"
    using step run by (simp add: ptr_add_Ptr set_block_twice)
  moreover have "length dst' = length dst" using len by simp
  moreover have "\<forall>i < length dst. dst' ! i =
             (if out + k \<le> i \<and> i < out + k + Suc n then Slot True (content (src ! (j + (i - (out + k))))) else dst ! i)"
  proof (intro allI impI)
    fix i assume i: "i < length dst"
    show "dst' ! i = (if out + k \<le> i \<and> i < out + k + Suc n then Slot True (content (src ! (j + (i - (out + k))))) else dst ! i)"
    proof (cases "i = out + k")
      case True
      then show ?thesis using nth i by simp
    next
      case False
      have "out + Suc k \<le> i \<Longrightarrow> Suc j + (i - (out + Suc k)) = j + (i - (out + k))" by arith
      then show ?thesis using nth i False by (auto simp: nth_list_update)
    qed
  qed
  ultimately show ?case by blast
qed


lemma copy_n_cross:
  "blocks h a' = Some src \<Longrightarrow> blocks h a = Some dst \<Longrightarrow> a' \<noteq> a \<Longrightarrow>
   j + n \<le> length src \<Longrightarrow> i + n \<le> length dst \<Longrightarrow>
   \<forall>t < n. \<not> throws_on (copy_assign_throws T) (src ! (j + t)) \<Longrightarrow>
   \<exists>dst'. copy_n T (Ptr (Some a') j) n (Ptr (Some a) i) h = Ok () (set_block a dst' h) \<and>
          length dst' = length dst \<and> map alive dst' = map alive dst \<and>
          (\<forall>k < length dst. content (dst' ! k) =
             (if i \<le> k \<and> k < i + n then content (src ! (j + (k - i))) else content (dst ! k)))"
proof (induction n arbitrary: i j h dst)
  case 0
  then show ?case by (intro exI [of _ dst]) (auto simp: set_block_same)
next
  case (Suc n)
  let ?d1 = "dst[i := Slot (alive (dst ! i)) (content (src ! j))]"
  let ?h1 = "set_block a ?d1 h"
  have nothrow: "\<not> throws_on (copy_assign_throws T) (src ! j)"
    using Suc.prems(6) by (metis add.right_neutral zero_less_Suc)
  have step: "copy_assign T (Ptr (Some a') j) (Ptr (Some a) i) h = Ok () ?h1"
    using Suc.prems nothrow by (simp add: copy_assign_in)
  have pre: "blocks ?h1 a' = Some src" "blocks ?h1 a = Some ?d1" "Suc j + n \<le> length src"
    "Suc i + n \<le> length ?d1" "\<forall>t < n. \<not> throws_on (copy_assign_throws T) (src ! (Suc j + t))"
    using Suc.prems by (auto simp: blocks_set_block)
  from Suc.IH [OF pre(1,2) Suc.prems(3) pre(3,4,5)] obtain dst' where
    run: "copy_n T (Ptr (Some a') (Suc j)) n (Ptr (Some a) (Suc i)) ?h1 = Ok () (set_block a dst' ?h1)" and
    len: "length dst' = length ?d1" and al: "map alive dst' = map alive ?d1" and
    nth: "\<forall>k < length ?d1. content (dst' ! k) =
             (if Suc i \<le> k \<and> k < Suc i + n then content (src ! (Suc j + (k - Suc i))) else content (?d1 ! k))"
    by blast
  have "copy_n T (Ptr (Some a') j) (Suc n) (Ptr (Some a) i) h = Ok () (set_block a dst' h)"
    using step run by (simp add: ptr_add_Ptr set_block_twice)
  moreover have "length dst' = length dst" using len by simp
  moreover have "map alive dst' = map alive dst"
    using al Suc.prems(5) by (simp add: map_alive_update)
  moreover have "\<forall>k < length dst. content (dst' ! k) =
             (if i \<le> k \<and> k < i + Suc n then content (src ! (j + (k - i))) else content (dst ! k))"
  proof (intro allI impI)
    fix k assume k: "k < length dst"
    show "content (dst' ! k) = (if i \<le> k \<and> k < i + Suc n then content (src ! (j + (k - i))) else content (dst ! k))"
    proof (cases "k = i")
      case True
      then show ?thesis using nth k by simp
    next
      case False
      have "Suc i \<le> k \<Longrightarrow> Suc j + (k - Suc i) = j + (k - i)" by arith
      then show ?thesis using nth k False by (auto simp: nth_list_update)
    qed
  qed
  ultimately show ?case by blast
qed

lemma copy_n_shift:
  "blocks h a = Some b \<Longrightarrow> i + n < length b \<Longrightarrow>
   \<forall>t < n. \<not> throws_on (copy_assign_throws T) (b ! (Suc i + t)) \<Longrightarrow>
   \<exists>b'. copy_n T (Ptr (Some a) (Suc i)) n (Ptr (Some a) i) h = Ok () (set_block a b' h) \<and>
        length b' = length b \<and> map alive b' = map alive b \<and>
        (\<forall>k < length b. k \<noteq> i + n \<longrightarrow>
           content (b' ! k) = (if i \<le> k \<and> k < i + n then content (b ! Suc k) else content (b ! k))) \<and>
        content (b' ! (i + n)) = content (b ! (i + n))"
proof (induction n arbitrary: i h b)
  case 0
  then show ?case by (intro exI [of _ b]) (auto simp: set_block_same)
next
  case (Suc n)
  let ?b1 = "b[i := Slot (alive (b ! i)) (content (b ! Suc i))]"
  let ?h1 = "set_block a ?b1 h"
  have nothrow: "\<not> throws_on (copy_assign_throws T) (b ! Suc i)"
    using Suc.prems(3) by (metis add.right_neutral zero_less_Suc)
  have step: "copy_assign T (Ptr (Some a) (Suc i)) (Ptr (Some a) i) h = Ok () ?h1"
    using Suc.prems nothrow by (simp add: copy_assign_in)
  have pre: "blocks ?h1 a = Some ?b1" "Suc i + n < length ?b1"
    "\<forall>t < n. \<not> throws_on (copy_assign_throws T) (?b1 ! (Suc (Suc i) + t))"
    using Suc.prems by (auto simp: blocks_set_block)
  from Suc.IH [OF pre] obtain b' where
    run: "copy_n T (Ptr (Some a) (Suc (Suc i))) n (Ptr (Some a) (Suc i)) ?h1 = Ok () (set_block a b' ?h1)" and
    len: "length b' = length ?b1" and al: "map alive b' = map alive ?b1" and
    nth: "\<forall>k < length ?b1. k \<noteq> Suc i + n \<longrightarrow>
            content (b' ! k) = (if Suc i \<le> k \<and> k < Suc i + n then content (?b1 ! Suc k) else content (?b1 ! k))" and
    lst: "content (b' ! (Suc i + n)) = content (?b1 ! (Suc i + n))"
    by blast
  have "copy_n T (Ptr (Some a) (Suc i)) (Suc n) (Ptr (Some a) i) h = Ok () (set_block a b' h)"
    using step run by (simp add: ptr_add_Ptr set_block_twice)
  moreover have "length b' = length b" using len by simp
  moreover have "map alive b' = map alive b"
    using al Suc.prems(2) by (simp add: map_alive_update)
  moreover have "\<forall>k < length b. k \<noteq> i + Suc n \<longrightarrow>
       content (b' ! k) = (if i \<le> k \<and> k < i + Suc n then content (b ! Suc k) else content (b ! k))"
  proof (intro allI impI)
    fix k assume k: "k < length b" "k \<noteq> i + Suc n"
    show "content (b' ! k) = (if i \<le> k \<and> k < i + Suc n then content (b ! Suc k) else content (b ! k))"
    proof (cases "k = i")
      case True
      then show ?thesis using nth k by simp
    next
      case False
      then show ?thesis using nth k by (auto simp: nth_list_update)
    qed
  qed
  moreover have "content (b' ! (i + Suc n)) = content (b ! (i + Suc n))"
    using lst by simp
  ultimately show ?case by blast
qed

lemma move_n_shift:
  "blocks h a = Some b \<Longrightarrow> i + n < length b \<Longrightarrow>
   \<forall>t < n. \<not> move_assign_fails T (b ! (Suc i + t)) \<Longrightarrow>
   \<exists>b'. move_n T (Ptr (Some a) (Suc i)) n (Ptr (Some a) i) h = Ok () (set_block a b' h) \<and>
        length b' = length b \<and> map alive b' = map alive b \<and>
        (\<forall>k < length b. k \<noteq> i + n \<longrightarrow>
           content (b' ! k) = (if i \<le> k \<and> k < i + n then content (b ! Suc k) else content (b ! k))) \<and>
        content (b' ! (i + n)) = (if n = 0 then content (b ! i) else map_option (moved_from T) (content (b ! (i + n))))"
proof (induction n arbitrary: i h b)
  case 0
  then show ?case by (intro exI [of _ b]) (auto simp: set_block_same)
next
  case (Suc n)
  let ?b1 = "b[i := Slot (alive (b ! i)) (content (b ! Suc i)),
               Suc i := Slot (alive (b ! Suc i)) (map_option (moved_from T) (content (b ! Suc i)))]"
  let ?h1 = "set_block a ?b1 h"
  have nothrow: "\<not> move_assign_fails T (b ! Suc i)"
    using Suc.prems(3) by (metis add.right_neutral zero_less_Suc)
  have step: "move_assign T (Ptr (Some a) (Suc i)) (Ptr (Some a) i) h = Ok () ?h1"
    using Suc.prems nothrow by (simp add: move_assign_in)
  have pre: "blocks ?h1 a = Some ?b1" "Suc i + n < length ?b1"
    "\<forall>t < n. \<not> move_assign_fails T (?b1 ! (Suc (Suc i) + t))"
    using Suc.prems by (auto simp: blocks_set_block)
  from Suc.IH [OF pre] obtain b' where
    run: "move_n T (Ptr (Some a) (Suc (Suc i))) n (Ptr (Some a) (Suc i)) ?h1 = Ok () (set_block a b' ?h1)" and
    len: "length b' = length ?b1" and al: "map alive b' = map alive ?b1" and
    nth: "\<forall>k < length ?b1. k \<noteq> Suc i + n \<longrightarrow>
            content (b' ! k) = (if Suc i \<le> k \<and> k < Suc i + n then content (?b1 ! Suc k) else content (?b1 ! k))" and
    lst: "content (b' ! (Suc i + n)) = (if n = 0 then content (?b1 ! Suc i) else map_option (moved_from T) (content (?b1 ! (Suc i + n))))"
    by blast
  have "move_n T (Ptr (Some a) (Suc i)) (Suc n) (Ptr (Some a) i) h = Ok () (set_block a b' h)"
    using step run by (simp add: ptr_add_Ptr set_block_twice)
  moreover have "length b' = length b" using len by simp
  moreover have "map alive b' = map alive b"
    using al Suc.prems(2) by (simp add: map_alive_update)
  moreover have "\<forall>k < length b. k \<noteq> i + Suc n \<longrightarrow>
       content (b' ! k) = (if i \<le> k \<and> k < i + Suc n then content (b ! Suc k) else content (b ! k))"
  proof (intro allI impI)
    fix k assume k: "k < length b" "k \<noteq> i + Suc n"
    show "content (b' ! k) = (if i \<le> k \<and> k < i + Suc n then content (b ! Suc k) else content (b ! k))"
    proof (cases "k = i")
      case True
      then show ?thesis using nth k by simp
    next
      case False
      then show ?thesis using nth k by (auto simp: nth_list_update)
    qed
  qed
  moreover have "content (b' ! (i + Suc n)) = (if Suc n = 0 then content (b ! i) else map_option (moved_from T) (content (b ! (i + Suc n))))"
    using lst Suc.prems(2) by (cases "n = 0") simp_all
  ultimately show ?case by blast
qed

lemma alive_after_pop:
  "0 < n \<Longrightarrow> n \<le> c \<Longrightarrow>
   (replicate n True @ replicate (c - n) False)[n - 1 := False] =
   replicate (n - 1) True @ replicate (c - (n - 1)) False"
  by (auto simp: list_eq_iff_nth_eq nth_append nth_list_update)

lemma move_backward_n_shift:
  "blocks h a = Some b \<Longrightarrow> i + n < length b \<Longrightarrow>
   \<forall>t < n. \<not> move_assign_fails T (b ! (i + t)) \<Longrightarrow>
   \<exists>b'. move_backward_n T (Ptr (Some a) i) n (Ptr (Some a) (Suc i)) h = Ok () (set_block a b' h) \<and>
        length b' = length b \<and> map alive b' = map alive b \<and>
        (\<forall>k < length b. k \<noteq> i \<longrightarrow>
           content (b' ! k) = (if i < k \<and> k \<le> i + n then content (b ! (k - 1)) else content (b ! k))) \<and>
        content (b' ! i) = (if n = 0 then content (b ! i) else map_option (moved_from T) (content (b ! i)))"
proof (induction n arbitrary: h b)
  case 0
  then show ?case by (intro exI [of _ b]) (auto simp: set_block_same)
next
  case (Suc n)
  let ?b1 = "b[Suc (i + n) := Slot (alive (b ! Suc (i + n))) (content (b ! (i + n))),
               i + n := Slot (alive (b ! (i + n))) (map_option (moved_from T) (content (b ! (i + n))))]"
  let ?h1 = "set_block a ?b1 h"
  have nothrow: "\<not> move_assign_fails T (b ! (i + n))"
    using Suc.prems(3) by simp
  have step: "move_assign T (Ptr (Some a) (i + n)) (Ptr (Some a) (Suc (i + n))) h = Ok () ?h1"
    using Suc.prems nothrow by (simp add: move_assign_in)
  have pre: "blocks ?h1 a = Some ?b1" "i + n < length ?b1"
    "\<forall>t < n. \<not> move_assign_fails T (?b1 ! (i + t))"
    using Suc.prems by (auto simp: blocks_set_block)
  from Suc.IH [OF pre] obtain b' where
    run: "move_backward_n T (Ptr (Some a) i) n (Ptr (Some a) (Suc i)) ?h1 = Ok () (set_block a b' ?h1)" and
    len: "length b' = length ?b1" and al: "map alive b' = map alive ?b1" and
    nth: "\<forall>k < length ?b1. k \<noteq> i \<longrightarrow>
            content (b' ! k) = (if i < k \<and> k \<le> i + n then content (?b1 ! (k - 1)) else content (?b1 ! k))" and
    fst: "content (b' ! i) = (if n = 0 then content (?b1 ! i) else map_option (moved_from T) (content (?b1 ! i)))"
    by blast
  have "move_backward_n T (Ptr (Some a) i) (Suc n) (Ptr (Some a) (Suc i)) h = Ok () (set_block a b' h)"
    using step run by (simp add: ptr_add_Ptr set_block_twice)
  moreover have "length b' = length b" using len by simp
  moreover have "map alive b' = map alive b"
    using al Suc.prems(2) by (simp add: map_alive_update)
  moreover have "\<forall>k < length b. k \<noteq> i \<longrightarrow>
       content (b' ! k) = (if i < k \<and> k \<le> i + Suc n then content (b ! (k - 1)) else content (b ! k))"
  proof (intro allI impI)
    fix k assume k: "k < length b" "k \<noteq> i"
    show "content (b' ! k) = (if i < k \<and> k \<le> i + Suc n then content (b ! (k - 1)) else content (b ! k))"
    proof (cases "k = Suc (i + n)")
      case True
      then show ?thesis using nth k by simp
    next
      case False
      then show ?thesis using nth k by (auto simp: nth_list_update)
    qed
  qed
  moreover have "content (b' ! i) =
      (if Suc n = 0 then content (b ! i) else map_option (moved_from T) (content (b ! i)))"
    using fst Suc.prems(2) by (cases "n = 0") simp_all
  ultimately show ?case by blast
qed

lemma uninit_move_from_ok:
  "blocks h a' = Some src \<Longrightarrow> blocks h a = Some dst \<Longrightarrow> a' \<noteq> a \<Longrightarrow>
   j + n \<le> length src \<Longrightarrow> out + k + n \<le> length dst \<Longrightarrow>
   \<forall>t < n. \<not> move_ctor_fails T (src ! (j + t)) \<Longrightarrow>
   \<exists>src' dst'. uninit_move_from T (Ptr (Some a') j) n (Ptr (Some a) out) k h =
                 Ok () (set_block a dst' (set_block a' src' h)) \<and>
          length src' = length src \<and> length dst' = length dst \<and>
          (\<forall>i < length dst. dst' ! i =
             (if out + k \<le> i \<and> i < out + k + n then Slot True (content (src ! (j + (i - (out + k))))) else dst ! i)) \<and>
          (\<forall>i < length src. src' ! i =
             (if j \<le> i \<and> i < j + n
              then Slot (alive (src ! i)) (map_option (moved_from T) (content (src ! i))) else src ! i))"
proof (induction n arbitrary: j k h src dst)
  case 0
  then show ?case
    by (intro exI [of _ src] exI [of _ dst]) (auto simp: set_block_same)
next
  case (Suc n)
  let ?s1 = "src[j := Slot (alive (src ! j)) (map_option (moved_from T) (content (src ! j)))]"
  let ?d1 = "dst[out + k := Slot True (content (src ! j))]"
  let ?h1 = "set_block a ?d1 (set_block a' ?s1 h)"
  have nothrow: "\<not> move_ctor_fails T (src ! j)"
    using Suc.prems(6) by (metis add.right_neutral zero_less_Suc)
  have step: "move_construct T (Ptr (Some a') j) (Ptr (Some a) (out + k)) h = Ok () ?h1"
    using Suc.prems nothrow by (simp add: move_construct_cross)
  have pre: "blocks ?h1 a' = Some ?s1" "blocks ?h1 a = Some ?d1" "Suc j + n \<le> length ?s1"
    "out + Suc k + n \<le> length ?d1" "\<forall>t < n. \<not> move_ctor_fails T (?s1 ! (Suc j + t))"
    using Suc.prems by (auto simp: blocks_set_block)
  from Suc.IH [OF pre(1,2) Suc.prems(3) pre(3,4,5)] obtain src' dst' where
    run: "uninit_move_from T (Ptr (Some a') (Suc j)) n (Ptr (Some a) out) (Suc k) ?h1 =
            Ok () (set_block a dst' (set_block a' src' ?h1))" and
    lens: "length src' = length ?s1" "length dst' = length ?d1" and
    nthd: "\<forall>i < length ?d1. dst' ! i =
             (if out + Suc k \<le> i \<and> i < out + Suc k + n
              then Slot True (content (?s1 ! (Suc j + (i - (out + Suc k))))) else ?d1 ! i)" and
    nths: "\<forall>i < length ?s1. src' ! i =
             (if Suc j \<le> i \<and> i < Suc j + n
              then Slot (alive (?s1 ! i)) (map_option (moved_from T) (content (?s1 ! i))) else ?s1 ! i)"
    by blast
  have "uninit_move_from T (Ptr (Some a') j) (Suc n) (Ptr (Some a) out) k h =
          Ok () (set_block a dst' (set_block a' src' h))"
    using step run Suc.prems(3) by (simp add: ptr_add_Ptr set_block_nested)
  moreover have "length src' = length src" "length dst' = length dst" using lens by simp_all
  moreover have "\<forall>i < length dst. dst' ! i =
             (if out + k \<le> i \<and> i < out + k + Suc n then Slot True (content (src ! (j + (i - (out + k))))) else dst ! i)"
  proof (intro allI impI)
    fix i assume i: "i < length dst"
    show "dst' ! i = (if out + k \<le> i \<and> i < out + k + Suc n then Slot True (content (src ! (j + (i - (out + k))))) else dst ! i)"
    proof (cases "i = out + k")
      case True
      then show ?thesis using nthd i by simp
    next
      case False
      have "out + Suc k \<le> i \<Longrightarrow> Suc j + (i - (out + Suc k)) = j + (i - (out + k))" by arith
      then show ?thesis using nthd i False by (auto simp: nth_list_update)
    qed
  qed
  moreover have "\<forall>i < length src. src' ! i =
             (if j \<le> i \<and> i < j + Suc n
              then Slot (alive (src ! i)) (map_option (moved_from T) (content (src ! i))) else src ! i)"
  proof (intro allI impI)
    fix i assume i: "i < length src"
    show "src' ! i = (if j \<le> i \<and> i < j + Suc n
              then Slot (alive (src ! i)) (map_option (moved_from T) (content (src ! i))) else src ! i)"
    proof (cases "i = j")
      case True
      then show ?thesis using nths i by simp
    next
      case False
      then show ?thesis using nths i by (auto simp: nth_list_update)
    qed
  qed
  ultimately show ?case by blast
qed

lemma Relocate_ok:
  assumes "blocks h a' = Some src" "blocks h a = Some dst" "a' \<noteq> a"
    "j + n \<le> length src" "out + n \<le> length dst"
    "\<forall>t < n. \<not> relocate_fails T (src ! (j + t))"
  shows "\<exists>src' dst'. Relocate T (Ptr (Some a') j) n (Ptr (Some a) out) h =
                 Ok () (set_block a dst' (set_block a' src' h)) \<and>
          length src' = length src \<and> length dst' = length dst \<and>
          (\<forall>i < length dst. dst' ! i =
             (if out \<le> i \<and> i < out + n then Slot True (content (src ! (j + (i - out)))) else dst ! i)) \<and>
          (\<forall>i < length src. i < j \<or> j + n \<le> i \<longrightarrow> src' ! i = src ! i) \<and>
          (\<forall>i < length src. alive (src' ! i) = alive (src ! i))"
proof (cases "nothrow_move_constructible T \<or> \<not> copy_constructible T")
  case True
  have q: "\<forall>t < n. \<not> move_ctor_fails T (src ! (j + t))"
    using assms(6) True by (simp add: relocate_fails_def)
  have b: "out + 0 + n \<le> length dst" using assms(5) by simp
  from uninit_move_from_ok [OF assms(1,2,3,4) b q] obtain src' dst' where
    "uninit_move_from T (Ptr (Some a') j) n (Ptr (Some a) out) 0 h = Ok () (set_block a dst' (set_block a' src' h))"
    "length src' = length src" "length dst' = length dst"
    "\<forall>i < length dst. dst' ! i =
             (if out + 0 \<le> i \<and> i < out + 0 + n then Slot True (content (src ! (j + (i - (out + 0))))) else dst ! i)"
    "\<forall>i < length src. src' ! i =
             (if j \<le> i \<and> i < j + n
              then Slot (alive (src ! i)) (map_option (moved_from T) (content (src ! i))) else src ! i)"
    by blast
  then show ?thesis
    using True by (intro exI [of _ src'] exI [of _ dst']) (auto simp: Relocate_def uninitialized_move_n_def)
next
  case False
  have q: "\<forall>t < n. \<not> throws_on (copy_ctor_throws T) (src ! (j + t))"
    using assms(6) False by (simp add: relocate_fails_def)
  have b: "out + 0 + n \<le> length dst" using assms(5) by simp
  from uninit_copy_from_ok [OF assms(1,2,3,4) b q] obtain dst' where
    "uninit_copy_from T (Ptr (Some a') j) n (Ptr (Some a) out) 0 h = Ok () (set_block a dst' h)"
    "length dst' = length dst"
    "\<forall>i < length dst. dst' ! i =
             (if out + 0 \<le> i \<and> i < out + 0 + n then Slot True (content (src ! (j + (i - (out + 0))))) else dst ! i)"
    by blast
  then show ?thesis
    using False assms(1)
    by (intro exI [of _ src] exI [of _ dst']) (auto simp: Relocate_def uninitialized_copy_n_def set_block_same)
qed

lemma Allocate_ok:
  "n \<noteq> 0 \<Longrightarrow> n \<le> avail h \<Longrightarrow> 0 < size_of T \<Longrightarrow> n * size_of T \<le> SIZE_MAX \<Longrightarrow>
   Allocate T n h = Ok (Some (next_addr h))
     ((set_block (next_addr h) (replicate n raw_slot) h)\<lparr>next_addr := Suc (next_addr h), avail := avail h - n\<rparr>)"
  by (simp add: Allocate_def operator_new_def size_t_small set_block_def)


lemma Allocate_small:
  "n \<noteq> 0 \<Longrightarrow> 0 < size_of T \<Longrightarrow> n * size_of T \<le> SIZE_MAX \<Longrightarrow>
   Allocate T n h =
     (if avail h < n then Raise BadAlloc h
      else Ok (Some (next_addr h))
             (h\<lparr>blocks := (blocks h)(next_addr h \<mapsto> replicate n raw_slot),
                next_addr := Suc (next_addr h),
                avail := avail h - n\<rparr>))"
  by (simp add: Allocate_def operator_new_def size_t_small)

section \<open>Running the code\<close>

text \<open>
  The rules by which a run on concrete data is evaluated. Requests of at most 255 bytes
  and sizes of at most 255 are evaluated without unfolding \<open>SIZE_MAX\<close>.
\<close>

lemmas heap_ops = load_def store_def construct_at_def set_content_def throws_on_def move_ctor_fails_def
  move_assign_fails_def
  copy_construct_def move_construct_def copy_assign_def move_assign_def destroyed_def destroy_at_def
  rollback_def is_exception_def uninitialized_copy_n_def uninitialized_move_n_def
  std_copy_def std_move_def move_backward_def ptr_add_def nullptr_def raw_slot_def
  Allocate_small size_t_small le_SIZE_MAX Deallocate_def RawMemory_def RawMemory_dtor_def RawMemory_plus_def RawMemory_index_def
  RawMemory_Swap_def GetAddress_def RawMemory_default_def

lemmas vector_ops = on_heap_def asserting_def unwind_def with_local_def Size_def Capacity_def grown_def
  Vector_begin_def Vector_end_def Vector_default_def Relocate_def adopt_def Reserve_def
  ForwardConstruct_def by_copy_def by_move_def Emplace_at_end_def Emplace_in_middle_def Emplace_grow_def
  Emplace_def EmplaceBack_def drop_result_def PushBack_def Insert_def size_dec_def PopBack_def Erase_def

lemmas observers = slots_def elements_def contents_def returns_with_def int_type_def str_type_def empty_heap_def
  fragile_type_def failure_def stops_with_def

section \<open>The scenario of the specification\<close>

text \<open>
  Claim C1. On a vector of \<^verbatim>\<open>int\<close> that starts empty (capacity 0), in a free store
  with room for six elements: \<^verbatim>\<open>PushBack(1)\<close>, \<^verbatim>\<open>PushBack(2)\<close>,
  \<^verbatim>\<open>PushBack(3)\<close> return with the values 1; 1, 2; 1, 2, 3 and the capacities 1, 2, 4;
  \<^verbatim>\<open>Insert(begin() + 1, 9)\<close> then gives 1, 9, 2, 3; \<^verbatim>\<open>Erase(begin() + 2)\<close> gives
  1, 9, 3; \<^verbatim>\<open>PopBack()\<close> gives 1, 9. The values are those read from the slots below
  \<^verbatim>\<open>size_\<close>; the destructor of \<^verbatim>\<open>int\<close> leaves a value where it was.
\<close>

theorem push_insert_erase_pop_scenario:
  assumes "6 \<le> avail h"
  shows "Capacity Vector_default = 0 \<and>
    returns_with (run int_type [CallPushBack 1] (h, Vector_default)) [Some 1] 1 \<and>
    returns_with (run int_type [CallPushBack 1, CallPushBack 2] (h, Vector_default)) [Some 1, Some 2] 2 \<and>
    returns_with (run int_type [CallPushBack 1, CallPushBack 2, CallPushBack 3] (h, Vector_default))
      [Some 1, Some 2, Some 3] 4 \<and>
    returns_with (run int_type [CallPushBack 1, CallPushBack 2, CallPushBack 3, CallInsert 1 9] (h, Vector_default))
      [Some 1, Some 9, Some 2, Some 3] 4 \<and>
    returns_with (run int_type [CallPushBack 1, CallPushBack 2, CallPushBack 3, CallInsert 1 9, CallErase 2] (h, Vector_default))
      [Some 1, Some 9, Some 3] 4 \<and>
    returns_with (run int_type [CallPushBack 1, CallPushBack 2, CallPushBack 3, CallInsert 1 9, CallErase 2, CallPopBack] (h, Vector_default))
      [Some 1, Some 9] 4"
  using assms by (simp add: heap_ops vector_ops observers eval_nat_numeral) arith

theorem push_insert_erase_pop_scenario_witness:
  "(6::nat) \<le> avail (empty_heap 6 :: int heap) \<and>
   returns_with
     (run int_type
        [CallPushBack 1, CallPushBack 2, CallPushBack 3, CallInsert 1 9, CallErase 2, CallPopBack]
        (empty_heap 6, Vector_default))
     [Some 1, Some 9] 4"
proof -
  have room: "(6::nat) \<le> avail (empty_heap 6 :: int heap)"
    by (simp add: empty_heap_def)
  from push_insert_erase_pop_scenario [OF room] room show ?thesis
    by simp
qed

section \<open>Insertion before the end with spare capacity\<close>

text \<open>
  What \<^verbatim>\<open>Emplace\<close> does for every vector with spare capacity (a \<^verbatim>\<open>size_t\<close>)
  and every position before the end, when no move throws: it returns with the size one
  greater; the slots
  below the old size hold the old values with the new one inserted and the old last one
  dropped; the slot at the old size, into which the old last element was moved, has been
  destroyed; no slot has changed between holding and not holding a live object, so the
  invariant does not hold of the new size.
\<close>

lemma Emplace_before_end_destroys_last:
  assumes inv: "vector_inv h v" and pos: "dist < vec_size v" and spare: "vec_size v < Capacity v"
    and sized: "Capacity v \<le> SIZE_MAX"
    and q1: "\<not> move_ctor_fails T (slots h v ! vec_size v)"
    and q2: "\<forall>k. dist \<le> k \<and> k < vec_size v \<longrightarrow> \<not> move_assign_fails T (slots h v ! k)"
  shows "\<exists>h'. Emplace T dist (Some x) (h, v) =
            Ok (ptr_add (Vector_begin v) dist) (h', v\<lparr>vec_size := Suc (vec_size v)\<rparr>) \<and>
          map content (take (vec_size v) (slots h' v)) =
            take dist (contents h v) @ Some x # drop dist (butlast (contents h v)) \<and>
          slots h' v ! vec_size v = destroyed T (Slot True (content (slots h v ! (vec_size v - 1)))) \<and>
          map alive (slots h' v) = map alive (slots h v) \<and>
          \<not> vector_inv h' (v\<lparr>vec_size := Suc (vec_size v)\<rparr>) \<and>
          (\<forall>a. Some a \<noteq> rm_buffer (vec_data v) \<longrightarrow> blocks h' a = blocks h a) \<and>
          next_addr h' = next_addr h \<and> avail h' = avail h"
proof -
  from spare have cap: "0 < Capacity v" by simp
  from vector_inv_buffer [OF inv cap] obtain a b where
    buf: "rm_buffer (vec_data v) = Some a" and blk: "blocks h a = Some b" and
    len: "length b = Capacity v" and old: "a < next_addr h" and
    al: "map alive b = replicate (vec_size v) True @ replicate (Capacity v - vec_size v) False"
    by blast
  define n where "n = vec_size v"
  have sl: "slots h v = b" using buf blk by (simp add: slots_def)
  have nb: "n < length b" "dist < n" using spare pos len by (simp_all add: n_def)
  define bA where "bA = b[n := Slot True (map_option (moved_from T) (content (b ! n)))]"
  define hA where "hA = set_block a bA h"
  have s1: "move_construct T (Ptr (Some a) n) (Ptr (Some a) n) h = Ok () hA"
    using blk nb q1 sl by (simp add: move_construct_self hA_def bA_def n_def)
  have blkA: "blocks hA a = Some bA" by (simp add: hA_def blocks_set_block)
  have boundA: "dist + (n - dist) < length bA" using nb by (simp add: bA_def)
  have quietA: "\<forall>t < n - dist. \<not> move_assign_fails T (bA ! (dist + t))"
    using q2 sl nb by (auto simp: bA_def n_def)
  from move_backward_n_shift [OF blkA boundA quietA] obtain bB where
    s2: "move_backward_n T (Ptr (Some a) dist) (n - dist) (Ptr (Some a) (Suc dist)) hA = Ok () (set_block a bB hA)" and
    lenB: "length bB = length bA" and alB: "map alive bB = map alive bA" and
    nthB: "\<forall>k < length bA. k \<noteq> dist \<longrightarrow>
             content (bB ! k) = (if dist < k \<and> k \<le> dist + (n - dist) then content (bA ! (k - 1)) else content (bA ! k))"
    by blast
  define bC where "bC = bB[n := destroyed T (bB ! n)]"
  define bD where "bD = bC[dist := Slot True (Some x)]"
  define h' where "h' = set_block a bD h"
  define v' where "v' = v\<lparr>vec_size := Suc (vec_size v)\<rparr>"
  have lens: "length bA = length b" "length bB = length b" "length bC = length b" "length bD = length b"
    using lenB by (simp_all add: bA_def bC_def bD_def)
  have arith: "Suc n - (n - dist) = Suc dist" using nb by simp
  have "alive (bB ! n) = alive (bA ! n)"
    using nb by (intro alive_nth_eq [OF alB]) (simp add: bA_def)
  then have builtB: "alive (bB ! n)"
    using nb by (simp add: bA_def)
  have mid: "Emplace_in_middle T dist (Some x) (h, v) = Ok () (h', v)"
    using buf nb s1 s2 lens arith builtB
    by (simp add: Emplace_in_middle_def asserting_def on_heap_def RawMemory_index_def RawMemory_plus_def
        Vector_end_def GetAddress_def ptr_add_Ptr move_backward_def destroy_at_in ForwardConstruct_def
        construct_at_in blocks_set_block set_block_twice hA_def h'_def bC_def bD_def n_def [symmetric]
        Capacity_def [symmetric] len [symmetric])
  have below: "vec_size v < SIZE_MAX" using spare sized by simp
  have run: "Emplace T dist (Some x) (h, v) = Ok (ptr_add (Vector_begin v) dist) (h', v')"
    using pos spare buf mid below
    by (simp add: Emplace_def v'_def Vector_begin_def GetAddress_def ptr_add_Ptr nullptr_def size_t_Suc)
  have sl': "slots h' v = bD" "slots h' v' = bD"
    using buf by (simp_all add: slots_def h'_def blocks_set_block v'_def)
  have clen: "length (contents h v) = n"
    using sl nb by (simp add: contents_def elements_def n_def)
  have cnth: "\<And>j. j < n \<Longrightarrow> contents h v ! j = content (b ! j)"
    using sl nb by (simp add: contents_def elements_def n_def)
  have vals: "map content (take n bD) = take dist (contents h v) @ Some x # drop dist (butlast (contents h v))"
  proof (rule nth_equalityI)
    show "length (map content (take n bD)) =
          length (take dist (contents h v) @ Some x # drop dist (butlast (contents h v)))"
      using nb lens clen by simp
  next
    fix k assume "k < length (map content (take n bD))"
    then have k: "k < n" using nb lens by simp
    show "map content (take n bD) ! k =
          (take dist (contents h v) @ Some x # drop dist (butlast (contents h v))) ! k"
    proof (cases "k = dist")
      case True
      then show ?thesis using k nb lens clen by (simp add: bD_def nth_append)
    next
      case False
      have lhs: "map content (take n bD) ! k = content (bB ! k)"
        using k nb lens False by (simp add: bD_def bC_def)
      have mid: "content (bB ! k) = (if dist < k then content (b ! (k - 1)) else content (b ! k))"
        using nthB k nb lens False by (auto simp: bA_def)
      show ?thesis
      proof (cases "k < dist")
        case True
        then show ?thesis using lhs mid k nb clen cnth by (simp add: nth_append)
      next
        case False
        with \<open>k \<noteq> dist\<close> have gt: "dist < k" by simp
        then have "(take dist (contents h v) @ Some x # drop dist (butlast (contents h v))) ! k =
                   butlast (contents h v) ! (k - 1)"
          using k nb clen by (simp add: nth_append min_def)
        also have "\<dots> = content (b ! (k - 1))"
          using k gt nb clen cnth by (simp add: nth_butlast)
        finally show ?thesis using lhs mid gt by simp
      qed
    qed
  qed
  have lastB: "content (bB ! n) = content (b ! (n - 1))"
    using nthB nb lens by (auto simp: bA_def)
  have slotn: "bD ! n = destroyed T (Slot True (content (b ! (n - 1))))"
    using nb lens lastB by (simp add: bD_def bC_def destroyed_def)
  have aliveA: "map alive bA = (map alive b)[n := True]"
    by (simp add: bA_def map_update)
  have alive_n: "\<not> alive (b ! n)"
    using alive_nth [of b "vec_size v" n] al len nb by (simp add: n_def)
  have alive_d: "alive (b ! dist)"
    using alive_nth [of b "vec_size v" dist] al len nb by (simp add: n_def)
  have aliveD: "map alive bD = map alive b"
  proof (rule nth_equalityI)
    show "length (map alive bD) = length (map alive b)" using lens by simp
  next
    fix k assume "k < length (map alive bD)"
    then have k: "k < length b" using lens by simp
    have "alive (bB ! k) = alive (bA ! k)"
      using alB k lens by (metis length_map nth_map)
    then show "map alive bD ! k = map alive b ! k"
      using k lens nb alive_n alive_d
      by (auto simp: bD_def bC_def bA_def nth_list_update alive_destroyed)
  qed
  have broken: "\<not> vector_inv h' v'"
  proof
    assume "vector_inv h' v'"
    moreover have "n < Capacity v'" using spare by (simp add: v'_def n_def Capacity_def)
    ultimately have "alive (slots h' v' ! n) = (n < vec_size v')"
      by (rule vector_inv_alive)
    then show False
      using sl' slotn by (simp add: v'_def n_def alive_destroyed)
  qed
  have frame: "\<forall>x. Some x \<noteq> rm_buffer (vec_data v) \<longrightarrow> blocks h' x = blocks h x"
    using buf by (auto simp: h'_def blocks_set_block)
  show ?thesis
    using run vals slotn aliveD broken frame sl sl'
    by (intro exI [of _ h']) (simp add: v'_def n_def h'_def set_block_fields)
qed


text \<open>
  Claim C2, on the code. Three strings are pushed into an empty vector, which leaves
  capacity 4 and size 3, and a fourth is inserted at \<^verbatim>\<open>begin() + 1\<close>. The call returns
  with size 4, the new value at index 1 and the old second element at index 2, but the
  slot at index 3, where the old last element was moved, has been destroyed: the
  source calls \<^verbatim>\<open>destroy_at(data_ + size_)\<close>, not \<^verbatim>\<open>destroy_at\<close> of the slot at
  \<open>pos\<close>. With \<^verbatim>\<open>int\<close> the same slot is the one whose lifetime has ended; only its
  bytes survive.
\<close>

theorem Insert_in_middle_destroys_last:
  "final_slots (run str_type [CallPushBack ''a'', CallPushBack ''b'', CallPushBack ''c''] (empty_heap 6, Vector_default)) =
     Some ([Slot True (Some ''a''), Slot True (Some ''b''), Slot True (Some ''c''), Slot False None], 3) \<and>
   final_slots (run str_type [CallPushBack ''a'', CallPushBack ''b'', CallPushBack ''c'', CallInsert 1 ''x''] (empty_heap 6, Vector_default)) =
     Some ([Slot True (Some ''a''), Slot True (Some ''x''), Slot True (Some ''b''), Slot False None], 4)"
  by (simp add: heap_ops vector_ops observers final_slots_def eval_nat_numeral)

text \<open>
  Claim C5, on the code. After the three \<^verbatim>\<open>PushBack\<close> calls the invariant holds;
  \<^verbatim>\<open>Insert(begin() + 1, x)\<close> returns normally and the invariant does not hold of the
  state it returns: a slot below \<^verbatim>\<open>size_\<close> holds no live object.
\<close>

theorem Insert_in_middle_breaks_invariant:
  "holds_after (run str_type [CallPushBack ''a'', CallPushBack ''b'', CallPushBack ''c''] (empty_heap 6, Vector_default)) vector_inv \<and>
   fails_after (run str_type [CallPushBack ''a'', CallPushBack ''b'', CallPushBack ''c'', CallInsert 1 ''x''] (empty_heap 6, Vector_default)) vector_inv"
  by (simp add: heap_ops vector_ops observers holds_after_def fails_after_def vector_inv_def eval_nat_numeral)

text \<open>
  Claim C7, on the code. Three strings of 41 characters are pushed into an empty vector,
  which leaves capacity 4 and size 3. Inserting a fourth at \<^verbatim>\<open>begin() + 1\<close> returns
  with the old last string destroyed in the slot at index 3. \<^verbatim>\<open>Erase\<close> at
  \<^verbatim>\<open>begin() + 1\<close> then moves the content of that destroyed slot into index 2, and
  \<^verbatim>\<open>PopBack\<close> runs the destructor on the slot a second time. The three strings are
  not given back: the size is 3 again, but the third value is the indeterminate content
  of a destroyed string, and the call has undefined behaviour.
\<close>

theorem Insert_then_Erase_loses_last:
  "returns_with
     (run str_type
        [CallPushBack (long_string CHR ''a''), CallPushBack (long_string CHR ''b''),
         CallPushBack (long_string CHR ''c'')]
        (empty_heap 6, Vector_default))
     [Some (long_string CHR ''a''), Some (long_string CHR ''b''), Some (long_string CHR ''c'')] 4 \<and>
   returns_with
     (run str_type
        [CallPushBack (long_string CHR ''a''), CallPushBack (long_string CHR ''b''),
         CallPushBack (long_string CHR ''c''), CallInsert 1 (long_string CHR ''x'')]
        (empty_heap 6, Vector_default))
     [Some (long_string CHR ''a''), Some (long_string CHR ''x''), Some (long_string CHR ''b''), None] 4 \<and>
   stops_with
     (run str_type
        [CallPushBack (long_string CHR ''a''), CallPushBack (long_string CHR ''b''),
         CallPushBack (long_string CHR ''c''), CallInsert 1 (long_string CHR ''x''), CallErase 1]
        (empty_heap 6, Vector_default))
     LifetimeFault
     [Some (long_string CHR ''a''), Some (long_string CHR ''b''), None] 4"
  by (simp add: heap_ops vector_ops observers eval_nat_numeral)

section \<open>Failures that leave the vector as it was\<close>




section \<open>A constructor that throws at the end position\<close>

text \<open>
  What \<^verbatim>\<open>Emplace\<close> does at \<^verbatim>\<open>end()\<close> with spare capacity when the constructor
  of the new element throws. For a type that is neither nothrow-move-constructible nor
  copy-constructible the exception leaves at once. For every other type the handler of
  the source first calls \<^verbatim>\<open>std::destroy_at\<close> on the slot in which the construction
  failed, where no object lives. A trivial destructor does nothing there and the
  exception is rethrown: in both of these cases the free store and the vector are
  exactly what they were. Any other destructor runs on raw storage.
\<close>

lemma Emplace_at_end_failed_construction:
  assumes "vector_inv h v" and "vec_size v < Capacity v"
  shows "Emplace T (vec_size v) None (h, v) =
           Raise (if (nothrow_move_constructible T \<or> copy_constructible T) \<and> \<not> trivial_dtor T
                  then LifetimeFault else ElemThrow) (h, v)"
proof -
  from assms obtain a b where
    buf: "rm_buffer (vec_data v) = Some a" and blk: "blocks h a = Some b" and
    len: "length b = Capacity v" and
    al: "map alive b = replicate (vec_size v) True @ replicate (Capacity v - vec_size v) False"
    by (auto elim: vector_inv_buffer)
  have dead: "\<not> alive (b ! vec_size v)"
    using alive_nth [of b "vec_size v" "vec_size v"] al len assms(2) by simp
  have inside: "vec_size v < length b"
    using len assms(2) by simp
  have handler: "destroy_at T (Ptr (Some a) (vec_size v)) h =
      (if trivial_dtor T then Ok () h else Raise LifetimeFault h)"
  proof (cases "trivial_dtor T")
    case True
    then show ?thesis
      using blk inside dead by (simp add: destroy_at_in destroyed_trivial set_block_same)
  next
    case False
    then show ?thesis
      using blk inside dead by (simp add: destroy_at_dead)
  qed
  show ?thesis
    using assms(2) buf handler
    by (simp add: Emplace_def Emplace_at_end_def asserting_def on_heap_def RawMemory_plus_def
        ForwardConstruct_def is_exception_def Capacity_def)
qed

text \<open>
  Claim C4, on the code. A vector of a class type whose copy constructor throws on the
  value 13 and which has a destructor of its own is given capacity 2 and one element.
  \<^verbatim>\<open>PushBack(13)\<close> finds spare capacity and constructs at \<^verbatim>\<open>end()\<close>; the
  constructor throws. The call does not end with that exception and an untouched
  vector: the handler runs the destructor on the slot at index 1, in which no object was
  constructed.
\<close>

theorem Emplace_at_end_failure_destroys_raw_slot:
  "returns_with (run fragile_type [CallReserve 2, CallPushBack 1] (empty_heap 2, Vector_default))
     [Some 1] 2 \<and>
   final_slots (run fragile_type [CallReserve 2, CallPushBack 1] (empty_heap 2, Vector_default)) =
     Some ([Slot True (Some 1), Slot False None], 1) \<and>
   by_copy fragile_type 13 = None \<and>
   stops_with (run fragile_type [CallReserve 2, CallPushBack 1, CallPushBack 13] (empty_heap 2, Vector_default))
     LifetimeFault [Some 1] 2"
  by (simp add: heap_ops vector_ops observers final_slots_def eval_nat_numeral)

section \<open>Erase\<close>

lemma Erase_effect:
  assumes inv: "vector_inv h v" and pos: "dist < vec_size v"
    and quiet: "\<forall>k. dist < k \<and> k < vec_size v \<longrightarrow> \<not> shift_throws T (slots h v ! k)"
  shows "\<exists>h'. Erase T dist (h, v) =
            Ok (ptr_add (Vector_begin v) dist) (h', v\<lparr>vec_size := vec_size v - 1\<rparr>) \<and>
          contents h' (v\<lparr>vec_size := vec_size v - 1\<rparr>) =
            take dist (contents h v) @ drop (Suc dist) (contents h v) \<and>
          vector_inv h' (v\<lparr>vec_size := vec_size v - 1\<rparr>) \<and>
          slots h' v ! (vec_size v - 1) =
            destroyed T
              (Slot True
                 (if (nothrow_move_constructible T \<or> \<not> copy_constructible T) \<and> Suc dist < vec_size v
                  then map_option (moved_from T) (content (slots h v ! (vec_size v - 1)))
                  else content (slots h v ! (vec_size v - 1)))) \<and>
          (\<forall>x. Some x \<noteq> rm_buffer (vec_data v) \<longrightarrow> blocks h' x = blocks h x) \<and>
          next_addr h' = next_addr h \<and> avail h' = avail h"
proof -
  from inv pos have cap: "0 < Capacity v" by (auto simp: vector_inv_def)
  from vector_inv_buffer [OF inv cap] obtain a b where
    buf: "rm_buffer (vec_data v) = Some a" and blk: "blocks h a = Some b" and
    len: "length b = Capacity v" and old: "a < next_addr h" and sz: "vec_size v \<le> Capacity v" and
    al: "map alive b = replicate (vec_size v) True @ replicate (Capacity v - vec_size v) False"
    by blast
  define n where "n = vec_size v - Suc dist"
  have sl: "slots h v = b" using buf blk by (simp add: slots_def)
  have bound: "dist + n < length b" using pos sz len by (simp add: n_def)
  have last_ix: "dist + n = vec_size v - 1" using pos by (simp add: n_def)
  let ?shift = "if nothrow_move_constructible T \<or> \<not> copy_constructible T
                then std_move T (ptr_add (ptr_add (Vector_begin v) dist) 1) (Vector_end v) (ptr_add (Vector_begin v) dist) h
                else std_copy T (ptr_add (ptr_add (Vector_begin v) dist) 1) (Vector_end v) (ptr_add (Vector_begin v) dist) h"
  let ?moved = "(nothrow_move_constructible T \<or> \<not> copy_constructible T) \<and> Suc dist < vec_size v"
  have "\<exists>b1. ?shift = Ok () (set_block a b1 h) \<and> length b1 = length b \<and> map alive b1 = map alive b \<and>
          (\<forall>k < length b. k \<noteq> dist + n \<longrightarrow>
             content (b1 ! k) = (if dist \<le> k \<and> k < dist + n then content (b ! Suc k) else content (b ! k))) \<and>
          content (b1 ! (dist + n)) =
            (if ?moved then map_option (moved_from T) (content (b ! (dist + n))) else content (b ! (dist + n)))"
  proof (cases "nothrow_move_constructible T \<or> \<not> copy_constructible T")
    case True
    have "\<forall>t < n. \<not> move_assign_fails T (b ! (Suc dist + t))"
      using quiet True sl by (auto simp: shift_throws_def n_def)
    from move_n_shift [OF blk bound this] True pos buf show ?thesis
      by (auto simp: std_move_def Vector_begin_def Vector_end_def GetAddress_def ptr_add_Ptr n_def)
  next
    case False
    have "\<forall>t < n. \<not> throws_on (copy_assign_throws T) (b ! (Suc dist + t))"
      using quiet False sl by (auto simp: shift_throws_def n_def)
    from copy_n_shift [OF blk bound this] False pos buf show ?thesis
      by (auto simp: std_copy_def Vector_begin_def Vector_end_def GetAddress_def ptr_add_Ptr n_def)
  qed
  then obtain b1 where
    shift: "?shift = Ok () (set_block a b1 h)" and len1: "length b1 = length b" and
    al1: "map alive b1 = map alive b" and
    nth1: "\<forall>k < length b. k \<noteq> dist + n \<longrightarrow>
             content (b1 ! k) = (if dist \<le> k \<and> k < dist + n then content (b ! Suc k) else content (b ! k))" and
    lst1: "content (b1 ! (dist + n)) =
            (if ?moved then map_option (moved_from T) (content (b ! (dist + n))) else content (b ! (dist + n)))"
    by blast
  define b2 where "b2 = b1[vec_size v - 1 := destroyed T (b1 ! (vec_size v - 1))]"
  define h' where "h' = set_block a b2 h"
  define v' where "v' = v\<lparr>vec_size := vec_size v - 1\<rparr>"
  have "alive (b1 ! (vec_size v - 1)) = alive (b ! (vec_size v - 1))"
    using pos sz len by (intro alive_nth_eq [OF al1]) simp
  then have live_last: "alive (b1 ! (vec_size v - 1))"
    using alive_nth [of b "vec_size v" "vec_size v - 1"] al len pos sz by simp
  have pop: "PopBack T (set_block a b1 h, v) = Ok () (h', v')"
    using pos sz len len1 buf live_last
    by (simp add: PopBack_def size_dec_def asserting_def on_heap_def RawMemory_plus_def Capacity_def
        destroy_at_in blocks_set_block set_block_twice h'_def b2_def v'_def)
  have run: "Erase T dist (h, v) = Ok (ptr_add (Vector_begin v) dist) (h', v')"
    using pos shift pop
    by (simp add: Erase_def v'_def Vector_begin_def)
  have sl': "slots h' v = b2" "slots h' v' = b2"
    using buf by (simp_all add: slots_def h'_def blocks_set_block v'_def)
  have cont: "contents h' v' = take dist (contents h v) @ drop (Suc dist) (contents h v)"
  proof (rule nth_equalityI)
    show "length (contents h' v') = length (take dist (contents h v) @ drop (Suc dist) (contents h v))"
      using pos sz len len1 sl sl' by (simp add: contents_def elements_def v'_def b2_def)
  next
    fix k assume "k < length (contents h' v')"
    then have k: "k < vec_size v - 1"
      by (simp add: contents_def elements_def v'_def)
    then have kb: "k < length b" "k \<noteq> dist + n" "Suc k < vec_size v" "k < vec_size v"
      using sz len last_ix by auto
    have lhs: "contents h' v' ! k = content (b1 ! k)"
      using k kb len1 sl' by (simp add: contents_def elements_def v'_def b2_def)
    have src: "\<And>j. j < vec_size v \<Longrightarrow> contents h v ! j = content (b ! j)"
      using sl sz len by (simp add: contents_def elements_def)
    have clen: "length (contents h v) = vec_size v"
      using sl sz len by (simp add: contents_def elements_def)
    have rhs: "(take dist (contents h v) @ drop (Suc dist) (contents h v)) ! k =
               (if dist \<le> k then content (b ! Suc k) else content (b ! k))"
      using kb pos clen src by (auto simp: nth_append min_def)
    show "contents h' v' ! k = (take dist (contents h v) @ drop (Suc dist) (contents h v)) ! k"
      using lhs rhs nth1 kb last_ix k by auto
  qed
  have al2: "map alive b2 = replicate (vec_size v - 1) True @ replicate (Capacity v - (vec_size v - 1)) False"
    using al al1 pos sz alive_after_pop [of "vec_size v" "Capacity v"]
    by (simp add: b2_def map_update alive_destroyed)
  have inv': "vector_inv h' v'"
  proof -
    have "vec_size v' \<le> Capacity v'" using sz by (simp add: v'_def Capacity_def)
    moreover have "blocks h' a = Some b2" "length b2 = Capacity v'"
      using len len1 by (simp_all add: h'_def blocks_set_block b2_def v'_def Capacity_def)
    moreover have "map alive b2 = replicate (vec_size v') True @ replicate (Capacity v' - vec_size v') False"
      using al2 by (simp add: v'_def Capacity_def)
    moreover have "rm_buffer (vec_data v') = Some a" "a < next_addr h'"
      using buf old by (simp_all add: v'_def h'_def set_block_fields)
    ultimately show ?thesis by (simp add: vector_inv_def)
  qed
  have dead: "slots h' v ! (vec_size v - 1) =
      destroyed T
        (Slot True
           (if ?moved then map_option (moved_from T) (content (slots h v ! (vec_size v - 1)))
            else content (slots h v ! (vec_size v - 1))))"
    using pos sz len len1 sl' sl lst1 last_ix by (simp add: b2_def destroyed_def)
  have frame: "\<forall>x. Some x \<noteq> rm_buffer (vec_data v) \<longrightarrow> blocks h' x = blocks h x"
    using buf by (auto simp: h'_def blocks_set_block)
  show ?thesis
    using run cont inv' dead frame by (auto simp: v'_def h'_def set_block_fields)
qed


text \<open>
  Claim C6. Let the invariant hold and \<open>dist\<close> be below the size, and let the
  assignment used for the shift (move assignment when the move constructor is
  \<^verbatim>\<open>noexcept\<close> or the type is not copy-constructible, copy assignment otherwise) not
  throw on the elements after \<open>dist\<close>. Then \<^verbatim>\<open>Erase\<close> returns \<^verbatim>\<open>begin() + dist\<close>
  in the same buffer; the size is one less; the values are the old ones without the one
  at \<open>dist\<close>, so the element that followed it is now at \<open>dist\<close>; the old last slot
  is destroyed (after a shift by move it held a moved-from object, otherwise the old
  last value) and the invariant holds; nothing else in the free store has changed.
\<close>

theorem Erase_shifts_left:
  assumes inv: "vector_inv h v" and pos: "dist < vec_size v"
    and quiet: "\<forall>k. dist < k \<and> k < vec_size v \<longrightarrow> \<not> shift_throws T (slots h v ! k)"
  shows "\<exists>h'. Erase T dist (h, v) =
            Ok (ptr_add (Vector_begin v) dist) (h', v\<lparr>vec_size := vec_size v - 1\<rparr>) \<and>
          contents h' (v\<lparr>vec_size := vec_size v - 1\<rparr>) =
            take dist (contents h v) @ drop (Suc dist) (contents h v) \<and>
          vector_inv h' (v\<lparr>vec_size := vec_size v - 1\<rparr>) \<and>
          slots h' v ! (vec_size v - 1) =
            destroyed T
              (Slot True
                 (if (nothrow_move_constructible T \<or> \<not> copy_constructible T) \<and> Suc dist < vec_size v
                  then map_option (moved_from T) (content (slots h v ! (vec_size v - 1)))
                  else content (slots h v ! (vec_size v - 1)))) \<and>
          (\<forall>x. Some x \<noteq> rm_buffer (vec_data v) \<longrightarrow> blocks h' x = blocks h x) \<and>
          next_addr h' = next_addr h \<and> avail h' = avail h"
  using Erase_effect [OF assms] .

theorem Erase_shifts_left_witness:
  "\<exists>h'. Erase int_type 0 (heap_of [[live 1, live 2, live 3, raw_slot]] 0, vector_at 0 4 3) =
           Ok (Ptr (Some 0) 0) (h', vector_at 0 4 2) \<and>
         contents h' (vector_at 0 4 2) = [Some 2, Some 3] \<and>
         vector_inv h' (vector_at 0 4 2)"
proof -
  let ?h = "heap_of [[live 1, live 2, live 3, raw_slot]] 0 :: int heap"
  let ?v = "vector_at 0 4 3"
  have inv: "vector_inv ?h ?v"
    by (simp add: vector_inv_def heap_of_def vector_at_def live_def raw_slot_def Capacity_def
        eval_nat_numeral)
  have pos: "0 < vec_size ?v"
    by (simp add: vector_at_def)
  have quiet: "\<forall>k. 0 < k \<and> k < vec_size ?v \<longrightarrow> \<not> shift_throws int_type (slots ?h ?v ! k)"
    by (simp add: shift_throws_def move_assign_fails_def int_type_def)
  have v': "?v\<lparr>vec_size := vec_size ?v - 1\<rparr> = vector_at 0 4 2"
    by (simp add: vector_at_def)
  have p: "ptr_add (Vector_begin ?v) 0 = Ptr (Some 0) 0"
    by (simp add: ptr_add_def Vector_begin_def GetAddress_def vector_at_def)
  have c: "take 0 (contents ?h ?v) @ drop (Suc 0) (contents ?h ?v) = [Some 2, Some 3]"
    by (simp add: contents_def elements_def slots_def heap_of_def vector_at_def live_def)
  from Erase_shifts_left [OF inv pos quiet] obtain h' where
    "Erase int_type 0 (?h, ?v) = Ok (ptr_add (Vector_begin ?v) 0) (h', ?v\<lparr>vec_size := vec_size ?v - 1\<rparr>)"
    "contents h' (?v\<lparr>vec_size := vec_size ?v - 1\<rparr>) =
       take 0 (contents ?h ?v) @ drop (Suc 0) (contents ?h ?v)"
    "vector_inv h' (?v\<lparr>vec_size := vec_size ?v - 1\<rparr>)"
    by blast
  then show ?thesis
    unfolding v' p c by blast
qed

section \<open>Copy assignment into existing storage\<close>

lemma copy_assign_core:
  assumes distinct: "this \<noteq> rhs" and et: "objs this = vt" and er: "objs rhs = vr"
    and inv_t: "vector_inv h vt" and inv_r: "vector_inv h vr"
    and own: "rm_buffer (vec_data vt) = None \<or> rm_buffer (vec_data vt) \<noteq> rm_buffer (vec_data vr)"
    and fits: "vec_size vr \<le> Capacity vt"
    and quiet_assign: "\<forall>k. k < vec_size vr \<and> k < vec_size vt \<longrightarrow>
                         \<not> throws_on (copy_assign_throws T) (slots h vr ! k)"
    and quiet_ctor: "\<forall>k. vec_size vt \<le> k \<and> k < vec_size vr \<longrightarrow>
                       \<not> throws_on (copy_ctor_throws T) (slots h vr ! k)"
  shows "\<exists>h'. Vector_copy_assign T this rhs (h, objs) =
               Ok () (h', objs(this := vt\<lparr>vec_size := vec_size vr\<rparr>)) \<and>
          contents h' (vt\<lparr>vec_size := vec_size vr\<rparr>) = contents h vr \<and>
          vector_inv h' (vt\<lparr>vec_size := vec_size vr\<rparr>) \<and>
          slots h' vr = slots h vr \<and> vector_inv h' vr \<and>
          (\<forall>x. Some x \<noteq> rm_buffer (vec_data vt) \<longrightarrow> blocks h' x = blocks h x) \<and>
          next_addr h' = next_addr h \<and> avail h' = avail h"
proof -
  define vt' where "vt' = vt\<lparr>vec_size := vec_size vr\<rparr>"
  define st where "st = vec_size vt"
  define sr where "sr = vec_size vr"
  let ?second = "\<lambda>h1. if sr < st
      then destroy_n T (ptr_add (Vector_begin vt) sr) (st - sr) h1
      else uninitialized_copy_n T (ptr_add (Vector_begin vr) st) (sr - st) (Vector_end vt) h1"
  have unfold: "Vector_copy_assign T this rhs (h, objs) =
      on_heap (copy_n T (Vector_begin vr) (min sr st) (Vector_begin vt) h) objs (\<lambda>_ h1.
      on_heap (?second h1) objs (\<lambda>_ h2. Ok () (h2, objs(this := vt'))))"
    using distinct fits
    by (simp add: Vector_copy_assign_def et er vt'_def st_def sr_def not_less cong: if_cong)
  have sizes: "st \<le> Capacity vt" "sr \<le> Capacity vr" "sr \<le> Capacity vt"
    using inv_t inv_r fits by (auto simp: vector_inv_def st_def sr_def)
  have basics: "vec_data vt' = vec_data vt" "Size vt' = Size vr" "vec_size vt' = sr" "Capacity vt' = Capacity vt"
    by (simp_all add: vt'_def Size_def sr_def Capacity_def)
  show ?thesis
  proof (cases "Capacity vt = 0")
    case True
    then have zero: "st = 0" "sr = 0" using sizes by auto
    have same: "vt' = vt"
      using zero by (simp add: vt'_def st_def sr_def)
    have run: "Vector_copy_assign T this rhs (h, objs) = Ok () (h, objs(this := vt'))"
      using zero by (simp add: unfold on_heap_def uninitialized_copy_n_def)
    have "contents h vt' = contents h vr"
      using zero by (simp add: contents_def elements_def same st_def sr_def)
    then show ?thesis
      using run inv_t inv_r basics same by (auto simp: vt'_def)
  next
    case False
    then have cap: "0 < Capacity vt" by simp
    from vector_inv_slots [OF inv_t cap] obtain a where
      buf: "rm_buffer (vec_data vt) = Some a" and blk: "blocks h a = Some (slots h vt)" and
      len: "length (slots h vt) = Capacity vt" and old: "a < next_addr h"
      by blast
    define dst where "dst = slots h vt"
    have first: "\<exists>dst1. copy_n T (Vector_begin vr) (min sr st) (Vector_begin vt) h = Ok () (set_block a dst1 h) \<and>
        length dst1 = length dst \<and> map alive dst1 = map alive dst \<and>
        (\<forall>k < min sr st. content (dst1 ! k) = content (slots h vr ! k))"
    proof (cases "sr = 0")
      case True
      then show ?thesis
        using blk by (intro exI [of _ dst]) (simp add: set_block_same dst_def)
    next
      case False
      then have capr: "0 < Capacity vr" using sizes by simp
      from vector_inv_slots [OF inv_r capr] obtain a' where
        bufr: "rm_buffer (vec_data vr) = Some a'" and blkr: "blocks h a' = Some (slots h vr)" and
        lenr: "length (slots h vr) = Capacity vr"
        by blast
      have ne: "a' \<noteq> a" using own buf bufr by auto
      have q: "\<forall>t < min sr st. \<not> throws_on (copy_assign_throws T) (slots h vr ! (0 + t))"
        using quiet_assign by (simp add: sr_def st_def)
      have b1: "0 + min sr st \<le> length (slots h vr)" "0 + min sr st \<le> length (slots h vt)"
        using sizes len lenr by auto
      from copy_n_cross [OF blkr blk ne b1 q] obtain d where
        d: "copy_n T (Ptr (Some a') 0) (min sr st) (Ptr (Some a) 0) h = Ok () (set_block a d h)"
          "length d = length (slots h vt)" "map alive d = map alive (slots h vt)" and
        dn: "\<forall>k < length (slots h vt). content (d ! k) =
               (if 0 \<le> k \<and> k < 0 + min sr st then content (slots h vr ! (0 + (k - 0)))
                else content (slots h vt ! k))"
        by blast
      have "\<forall>k < min sr st. content (d ! k) = content (slots h vr ! k)"
        using dn sizes len by auto
      then show ?thesis
        using d buf bufr
        by (intro exI [of _ d]) (simp add: Vector_begin_def GetAddress_def dst_def)
    qed
    then obtain dst1 where
      run1: "copy_n T (Vector_begin vr) (min sr st) (Vector_begin vt) h = Ok () (set_block a dst1 h)" and
      len1: "length dst1 = length dst" and al1: "map alive dst1 = map alive dst" and
      nth1: "\<forall>k < min sr st. content (dst1 ! k) = content (slots h vr ! k)"
      by blast
    define h1 where "h1 = set_block a dst1 h"
    have blk1: "blocks h1 a = Some dst1" by (simp add: h1_def blocks_set_block)
    have alive1: "\<And>k. k < Capacity vt \<Longrightarrow> alive (dst1 ! k) = (k < st)"
    proof -
      fix k assume k: "k < Capacity vt"
      have "alive (dst1 ! k) = map alive dst1 ! k" using k len len1 by (simp add: dst_def)
      also have "\<dots> = alive (dst ! k)" using al1 k len by (simp add: dst_def)
      also have "\<dots> = (k < st)" using vector_inv_alive [OF inv_t k] by (simp add: dst_def st_def)
      finally show "alive (dst1 ! k) = (k < st)" .
    qed
    have second: "\<exists>b2. ?second h1 = Ok () (set_block a b2 h) \<and> length b2 = length dst \<and>
        (\<forall>k < sr. content (b2 ! k) = content (slots h vr ! k)) \<and>
        (\<forall>k < Capacity vt. alive (b2 ! k) = (k < sr))"
    proof (cases "sr < st")
      case True
      have "sr + (st - sr) \<le> length dst1" using True sizes len len1 by (simp add: dst_def)
      moreover have "trivial_dtor T \<or> (\<forall>k. sr \<le> k \<and> k < sr + (st - sr) \<longrightarrow> alive (dst1 ! k))"
        using alive1 sizes True by auto
      ultimately obtain b2 where
        d: "destroy_n T (Ptr (Some a) sr) (st - sr) h1 = Ok () (set_block a b2 h1)" and
        l2: "length b2 = length dst1" and
        n2: "\<forall>k < length dst1. b2 ! k = (if sr \<le> k \<and> k < sr + (st - sr) then destroyed T (dst1 ! k) else dst1 ! k)"
        using destroy_n_in [OF blk1, of sr "st - sr" T] by blast
      have "?second h1 = Ok () (set_block a b2 h)"
        using True d buf by (simp add: Vector_begin_def GetAddress_def ptr_add_Ptr h1_def set_block_twice)
      moreover have "length b2 = length dst" using l2 len1 by simp
      moreover have "\<forall>k < sr. content (b2 ! k) = content (slots h vr ! k)"
        using n2 nth1 True sizes len len1 by (auto simp: dst_def)
      moreover have "\<forall>k < Capacity vt. alive (b2 ! k) = (k < sr)"
        using n2 alive1 True len len1 by (auto simp: dst_def alive_destroyed)
      ultimately show ?thesis by blast
    next
      case False
      then have le: "st \<le> sr" by simp
      show ?thesis
      proof (cases "sr = st")
        case True
        have "?second h1 = Ok () (set_block a dst1 h)"
          using True by (simp add: uninitialized_copy_n_def h1_def)
        moreover have "\<forall>k < sr. content (dst1 ! k) = content (slots h vr ! k)"
          using nth1 True by simp
        moreover have "\<forall>k < Capacity vt. alive (dst1 ! k) = (k < sr)"
          using alive1 True by simp
        ultimately show ?thesis using len1 by blast
      next
        case False
        with le have lt: "st < sr" by simp
        then have capr: "0 < Capacity vr" using sizes by simp
        from vector_inv_slots [OF inv_r capr] obtain a' where
          bufr: "rm_buffer (vec_data vr) = Some a'" and blkr: "blocks h a' = Some (slots h vr)" and
          lenr: "length (slots h vr) = Capacity vr"
          by blast
        have ne: "a' \<noteq> a" using own buf bufr by auto
        have blkr1: "blocks h1 a' = Some (slots h vr)"
          using blkr ne by (simp add: h1_def blocks_set_block)
        have q: "\<forall>t < sr - st. \<not> throws_on (copy_ctor_throws T) (slots h vr ! (st + t))"
          using quiet_ctor by (auto simp: sr_def st_def)
        have bnd: "st + (sr - st) \<le> length (slots h vr)" "st + 0 + (sr - st) \<le> length dst1"
          using lt sizes len len1 lenr by (auto simp: dst_def)
        from uninit_copy_from_ok [OF blkr1 blk1 ne bnd q] obtain b2 where
          u: "uninit_copy_from T (Ptr (Some a') st) (sr - st) (Ptr (Some a) st) 0 h1 = Ok () (set_block a b2 h1)" and
          l2: "length b2 = length dst1" and
          n2: "\<forall>i < length dst1. b2 ! i =
                 (if st + 0 \<le> i \<and> i < st + 0 + (sr - st)
                  then Slot True (content (slots h vr ! (st + (i - (st + 0))))) else dst1 ! i)"
          by blast
        have "?second h1 = Ok () (set_block a b2 h)"
          using lt u buf bufr
          by (simp add: Vector_begin_def Vector_end_def GetAddress_def ptr_add_Ptr h1_def set_block_twice
              uninitialized_copy_n_def st_def)
        moreover have "length b2 = length dst" using l2 len1 by simp
        moreover have "\<forall>k < sr. content (b2 ! k) = content (slots h vr ! k)"
          using n2 nth1 lt sizes len len1 by (auto simp: dst_def)
        moreover have "\<forall>k < Capacity vt. alive (b2 ! k) = (k < sr)"
          using n2 alive1 lt len len1 by (auto simp: dst_def)
        ultimately show ?thesis by blast
      qed
    qed
    then obtain b2 where
      run2: "?second h1 = Ok () (set_block a b2 h)" and len2: "length b2 = length dst" and
      cont2: "\<forall>k < sr. content (b2 ! k) = content (slots h vr ! k)" and
      alive2: "\<forall>k < Capacity vt. alive (b2 ! k) = (k < sr)"
      by blast
    define h' where "h' = set_block a b2 h"
    have run: "Vector_copy_assign T this rhs (h, objs) = Ok () (h', objs(this := vt'))"
      using run1 run2 [unfolded h1_def] by (simp add: unfold on_heap_def h1_def h'_def)
    have buf': "rm_buffer (vec_data vt') = Some a" using buf basics by simp
    have sl': "slots h' vt' = b2" using buf' by (simp add: slots_def h'_def blocks_set_block)
    have inv': "vector_inv h' vt'"
    proof (rule vector_invI [OF buf'])
      show "a < next_addr h'" using old by (simp add: h'_def set_block_fields)
      show "blocks h' a = Some b2" by (simp add: h'_def blocks_set_block)
      show "length b2 = Capacity vt'" using len2 len basics by (simp add: dst_def)
      show "vec_size vt' \<le> Capacity vt'" using sizes basics by simp
      show "\<forall>k < Capacity vt'. alive (b2 ! k) = (k < vec_size vt')" using alive2 basics by simp
    qed
    have rest: "\<forall>x. Some x \<noteq> rm_buffer (vec_data vt) \<longrightarrow> blocks h' x = blocks h x"
      using buf by (auto simp: h'_def blocks_set_block)
    have slr: "slots h' vr = slots h vr"
      using own buf by (auto simp: slots_def h'_def blocks_set_block split: option.splits)
    have invr: "vector_inv h' vr"
      using inv_r own buf
      by (auto simp: vector_inv_def h'_def blocks_set_block set_block_fields split: option.splits)
    have lr: "sr \<le> length (slots h vr) \<or> sr = 0"
      using inv_r sizes by (auto simp: vector_inv_def slots_def split: option.splits)
    have cont: "contents h' vt' = contents h vr"
    proof (rule nth_equalityI)
      show "length (contents h' vt') = length (contents h vr)"
        using lr sizes len len2 sl' basics
        by (auto simp: contents_def elements_def dst_def sr_def)
    next
      fix k assume "k < length (contents h' vt')"
      then have k: "k < sr" "k < length b2"
        using sl' basics by (simp_all add: contents_def elements_def)
      then have "k < length (slots h vr)" using lr by auto
      then show "contents h' vt' ! k = contents h vr ! k"
        using k cont2 sl' basics by (simp add: contents_def elements_def sr_def)
    qed
    show ?thesis
      using run cont inv' slr invr rest by (auto simp: h'_def set_block_fields vt'_def)
  qed
qed

text \<open>
  Claim C8. Let \<open>this\<close> and \<open>rhs\<close> be different objects that satisfy the invariant
  and do not share a buffer, let the size of \<open>rhs\<close> be at most the capacity of
  \<open>this\<close>, and let neither the copy assignment of the elements of \<open>rhs\<close> below both
  sizes nor the copy construction of those from the size of \<open>this\<close> on throw. Then the
  assignment returns (no read or write went outside a block); \<open>this\<close> keeps its buffer
  and capacity and has the size of \<open>rhs\<close>; its values are those of \<open>rhs\<close> in order; the
  invariant holds of it, so the slots from its new size on hold no live object; \<open>rhs\<close>
  and every other block are unchanged.
\<close>

theorem copy_assign_reuses_storage:
  assumes "this \<noteq> rhs"
    and "vector_inv h (objs this)" and "vector_inv h (objs rhs)"
    and "rm_buffer (vec_data (objs this)) = None \<or>
         rm_buffer (vec_data (objs this)) \<noteq> rm_buffer (vec_data (objs rhs))"
    and "vec_size (objs rhs) \<le> Capacity (objs this)"
    and "\<forall>k. k < vec_size (objs rhs) \<and> k < vec_size (objs this) \<longrightarrow>
           \<not> throws_on (copy_assign_throws T) (slots h (objs rhs) ! k)"
    and "\<forall>k. vec_size (objs this) \<le> k \<and> k < vec_size (objs rhs) \<longrightarrow>
           \<not> throws_on (copy_ctor_throws T) (slots h (objs rhs) ! k)"
  shows "\<exists>h'. Vector_copy_assign T this rhs (h, objs) =
               Ok () (h', objs(this := (objs this)\<lparr>vec_size := vec_size (objs rhs)\<rparr>)) \<and>
          contents h' ((objs this)\<lparr>vec_size := vec_size (objs rhs)\<rparr>) = contents h (objs rhs) \<and>
          vector_inv h' ((objs this)\<lparr>vec_size := vec_size (objs rhs)\<rparr>) \<and>
          slots h' (objs rhs) = slots h (objs rhs) \<and> vector_inv h' (objs rhs) \<and>
          (\<forall>x. Some x \<noteq> rm_buffer (vec_data (objs this)) \<longrightarrow> blocks h' x = blocks h x) \<and>
          next_addr h' = next_addr h \<and> avail h' = avail h"
  using copy_assign_core [OF assms(1) refl refl assms(2-7)] .

theorem copy_assign_reuses_storage_witness:
  "\<exists>h'. Vector_copy_assign int_type 0 1
           (heap_of [[live 1, live 2, live 3, live 4, live 5], [live 8, live 9]] 0,
            (\<lambda>_. Vector_default)(0 := vector_at 0 5 5, 1 := vector_at 1 2 2)) =
           Ok () (h', (\<lambda>_. Vector_default)(0 := vector_at 0 5 2, 1 := vector_at 1 2 2)) \<and>
         contents h' (vector_at 0 5 2) = [Some 8, Some 9] \<and>
         vector_inv h' (vector_at 0 5 2)"
proof -
  let ?h = "heap_of [[live 1, live 2, live 3, live 4, live 5], [live 8, live 9]] 0 :: int heap"
  let ?objs = "(\<lambda>_::nat. Vector_default)(0 := vector_at 0 5 5, 1 := vector_at 1 2 2)"
  have ne: "(0::nat) \<noteq> 1" by simp
  have inv0: "vector_inv ?h (?objs 0)"
    by (simp add: vector_inv_def heap_of_def vector_at_def live_def Capacity_def eval_nat_numeral)
  have inv1: "vector_inv ?h (?objs 1)"
    by (simp add: vector_inv_def heap_of_def vector_at_def live_def Capacity_def eval_nat_numeral)
  have own: "rm_buffer (vec_data (?objs 0)) = None \<or>
             rm_buffer (vec_data (?objs 0)) \<noteq> rm_buffer (vec_data (?objs 1))"
    by (simp add: vector_at_def)
  have fits: "vec_size (?objs 1) \<le> Capacity (?objs 0)"
    by (simp add: vector_at_def Capacity_def)
  have sl: "slots ?h (?objs 1) = [live 8, live 9]"
    by (simp add: slots_def heap_of_def vector_at_def)
  have q1: "\<forall>k. k < vec_size (?objs 1) \<and> k < vec_size (?objs 0) \<longrightarrow>
              \<not> throws_on (copy_assign_throws int_type) (slots ?h (?objs 1) ! k)"
    by (simp add: throws_on_def int_type_def split: option.splits)
  have q2: "\<forall>k. vec_size (?objs 0) \<le> k \<and> k < vec_size (?objs 1) \<longrightarrow>
              \<not> throws_on (copy_ctor_throws int_type) (slots ?h (?objs 1) ! k)"
    by (simp add: throws_on_def int_type_def split: option.splits)
  have v': "(?objs 0)\<lparr>vec_size := vec_size (?objs 1)\<rparr> = vector_at 0 5 2"
    by (simp add: vector_at_def)
  have o': "?objs(0 := vector_at 0 5 2) = (\<lambda>_. Vector_default)(0 := vector_at 0 5 2, 1 := vector_at 1 2 2)"
    by (rule ext) simp
  have c: "contents ?h (?objs 1) = [Some 8, Some 9]"
    by (simp add: contents_def elements_def slots_def heap_of_def vector_at_def live_def)
  from copy_assign_reuses_storage [OF ne inv0 inv1 own fits q1 q2] obtain h' where
    "Vector_copy_assign int_type 0 1 (?h, ?objs) =
       Ok () (h', ?objs(0 := (?objs 0)\<lparr>vec_size := vec_size (?objs 1)\<rparr>))"
    "contents h' ((?objs 0)\<lparr>vec_size := vec_size (?objs 1)\<rparr>) = contents ?h (?objs 1)"
    "vector_inv h' ((?objs 0)\<lparr>vec_size := vec_size (?objs 1)\<rparr>)"
    by blast
  then show ?thesis
    unfolding v' o' c by blast
qed

section \<open>Further properties of the operations\<close>

text \<open>
  \<^verbatim>\<open>Emplace\<close> at \<^verbatim>\<open>end()\<close> with spare capacity appends and keeps the invariant.
\<close>

lemma Emplace_at_end_appends:
  assumes inv: "vector_inv h v" and spare: "vec_size v < Capacity v" and sized: "Capacity v \<le> SIZE_MAX"
  shows "\<exists>h'. Emplace T (vec_size v) (Some x) (h, v) =
            Ok (Vector_end v) (h', v\<lparr>vec_size := Suc (vec_size v)\<rparr>) \<and>
          contents h' (v\<lparr>vec_size := Suc (vec_size v)\<rparr>) = contents h v @ [Some x] \<and>
          vector_inv h' (v\<lparr>vec_size := Suc (vec_size v)\<rparr>) \<and>
          (\<forall>a. Some a \<noteq> rm_buffer (vec_data v) \<longrightarrow> blocks h' a = blocks h a) \<and>
          next_addr h' = next_addr h \<and> avail h' = avail h"
proof -
  from spare have cap: "0 < Capacity v" by simp
  from vector_inv_buffer [OF inv cap] obtain a b where
    buf: "rm_buffer (vec_data v) = Some a" and blk: "blocks h a = Some b" and
    len: "length b = Capacity v" and old: "a < next_addr h" and
    al: "map alive b = replicate (vec_size v) True @ replicate (Capacity v - vec_size v) False"
    by blast
  define n where "n = vec_size v"
  define b1 where "b1 = b[n := Slot True (Some x)]"
  define h' where "h' = set_block a b1 h"
  define v' where "v' = v\<lparr>vec_size := Suc (vec_size v)\<rparr>"
  have nb: "n < length b" using spare len by (simp add: n_def)
  have below: "vec_size v < SIZE_MAX" using spare sized by simp
  have run: "Emplace T (vec_size v) (Some x) (h, v) = Ok (Vector_end v) (h', v')"
    using spare buf blk nb below
    by (simp add: Emplace_def Emplace_at_end_def asserting_def on_heap_def RawMemory_plus_def
        ForwardConstruct_def construct_at_in Capacity_def h'_def b1_def v'_def n_def
        Vector_end_def Vector_begin_def GetAddress_def ptr_add_Ptr size_t_Suc)
  have v'f: "rm_buffer (vec_data v') = Some a" "Capacity v' = Capacity v" "vec_size v' = Suc n"
    using buf by (simp_all add: v'_def Capacity_def n_def)
  have inv': "vector_inv h' v'"
  proof (rule vector_invI [OF v'f(1)])
    show "a < next_addr h'" using old by (simp add: h'_def set_block_fields)
    show "blocks h' a = Some b1" by (simp add: h'_def blocks_set_block)
    show "length b1 = Capacity v'" using len v'f by (simp add: b1_def)
    show "vec_size v' \<le> Capacity v'" using spare v'f by (simp add: n_def)
    show "\<forall>k < Capacity v'. alive (b1 ! k) = (k < vec_size v')"
    proof (intro allI impI)
      fix k assume "k < Capacity v'"
      then have k: "k < length b" using len v'f by simp
      have "alive (b ! k) = (k < n)"
        using alive_nth [of b "vec_size v" k] al len k by (simp add: n_def)
      then show "alive (b1 ! k) = (k < vec_size v')"
        using k v'f by (cases "k = n") (auto simp: b1_def nth_list_update)
    qed
  qed
  have "contents h' v' = contents h v @ [Some x]"
    using buf blk nb
    by (simp add: contents_def elements_def slots_def h'_def blocks_set_block v'_def b1_def
        n_def [symmetric] take_Suc_conv_app_nth)
  moreover have "\<forall>x. Some x \<noteq> rm_buffer (vec_data v) \<longrightarrow> blocks h' x = blocks h x"
    using buf by (auto simp: h'_def blocks_set_block)
  ultimately show ?thesis
    using run inv' by (intro exI [of _ h']) (simp add: v'_def h'_def set_block_fields)
qed

text \<open>
  \<^verbatim>\<open>Emplace\<close> on a full vector moves to a new block of capacity
  \<^verbatim>\<open>size_ > 0 ? size_ * 2 : 1\<close>, inserts the value at the position, keeps the
  invariant and releases the old block, provided the doubled size and the byte count of
  the request do not wrap around, the allocation succeeds and no relocation throws.
\<close>

lemma Emplace_reallocates:
  assumes inv: "vector_inv h v" and pos: "dist \<le> vec_size v" and full: "vec_size v = Capacity v"
    and sized: "0 < size_of T"
    and nowrap: "vec_size v * 2 \<le> SIZE_MAX" "grown (vec_size v) * size_of T \<le> SIZE_MAX"
    and room: "grown (vec_size v) \<le> avail h"
    and quiet: "\<forall>k < vec_size v. \<not> relocate_fails T (slots h v ! k)"
  shows "\<exists>h'. Emplace T dist (Some x) (h, v) =
            Ok (Ptr (Some (next_addr h)) dist)
               (h', \<lparr>vec_data = \<lparr>rm_buffer = Some (next_addr h), rm_capacity = grown (vec_size v)\<rparr>,
                     vec_size = Suc (vec_size v)\<rparr>) \<and>
          contents h' \<lparr>vec_data = \<lparr>rm_buffer = Some (next_addr h), rm_capacity = grown (vec_size v)\<rparr>,
                       vec_size = Suc (vec_size v)\<rparr> =
            take dist (contents h v) @ Some x # drop dist (contents h v) \<and>
          vector_inv h' \<lparr>vec_data = \<lparr>rm_buffer = Some (next_addr h), rm_capacity = grown (vec_size v)\<rparr>,
                         vec_size = Suc (vec_size v)\<rparr> \<and>
          (\<forall>a. rm_buffer (vec_data v) = Some a \<longrightarrow> blocks h' a = None) \<and>
          (\<forall>a. a \<noteq> next_addr h \<and> Some a \<noteq> rm_buffer (vec_data v) \<longrightarrow> blocks h' a = blocks h a) \<and>
          next_addr h' = Suc (next_addr h) \<and>
          avail h' + grown (vec_size v) = avail h + Capacity v"
proof -
  define na where "na = next_addr h"
  define n where "n = vec_size v"
  define c where "c = grown n"
  define new_data where "new_data = \<lparr>rm_buffer = Some na, rm_capacity = c\<rparr>"
  define v' where "v' = \<lparr>vec_data = new_data, vec_size = Suc n\<rparr>"
  define raw where "raw = (replicate c raw_slot :: 'a slot list)"
  define h1 where "h1 = (set_block na raw h)\<lparr>next_addr := Suc na, avail := avail h - c\<rparr>"
  have cpos: "n < c" "dist < c" "c \<noteq> 0"
    using pos nowrap(1) by (auto simp: c_def grown_def n_def size_t_small)
  have below: "vec_size v < SIZE_MAX"
    using nowrap(1) by (cases "vec_size v = 0") (simp_all add: SIZE_MAX_def)
  have alloc: "RawMemory T (grown (vec_size v)) h = Ok new_data h1"
    using room cpos sized nowrap(2) Allocate_ok [of c h T]
    by (simp add: RawMemory_def na_def h1_def c_def n_def new_data_def raw_def)
  define d0 where "d0 = raw[dist := Slot True (Some x)]"
  define h1a where "h1a = set_block na d0 h1"
  have bl1: "blocks h1 na = Some raw" by (simp add: h1_def set_block_def)
  have fwd: "ForwardConstruct (Ptr (Some na) dist) (Some x) h1 = Ok () h1a"
    using bl1 cpos by (simp add: ForwardConstruct_def construct_at_in h1a_def d0_def raw_def)
  have v'f: "rm_buffer (vec_data v') = Some na" "Capacity v' = c" "vec_size v' = Suc n"
    by (simp_all add: v'_def Capacity_def new_data_def)
  have d0n: "\<And>i. i < c \<Longrightarrow> d0 ! i = (if i = dist then Slot True (Some x) else raw_slot)"
    by (simp add: d0_def raw_def nth_list_update)
  have clen: "length (contents h v) = n"
    using inv by (auto simp: contents_def elements_def slots_def vector_inv_def n_def split: option.splits)
  show ?thesis
  proof (cases "rm_buffer (vec_data v)")
    case None
    then have zero: "Capacity v = 0" "n = 0" "dist = 0"
      using inv pos by (auto simp: vector_inv_def n_def)
    have grow: "Emplace_grow T dist (Some x) (h, v) = Ok () (h1a, v\<lparr>vec_data := new_data\<rparr>)"
      using alloc fwd None zero cpos
      by (simp add: Emplace_grow_def on_heap_def with_local_def asserting_def RawMemory_plus_def
          new_data_def Relocate_def uninitialized_copy_n_def uninitialized_move_n_def adopt_def
          RawMemory_Swap_def RawMemory_dtor_def Deallocate_def Vector_begin_def GetAddress_def
          n_def [symmetric])
    have run: "Emplace T dist (Some x) (h, v) = Ok (Ptr (Some na) dist) (h1a, v')"
      using grow full pos zero below
      by (simp add: Emplace_def v'_def Vector_begin_def GetAddress_def ptr_add_Ptr new_data_def
          n_def [symmetric] size_t_Suc)
    have bl: "blocks h1a na = Some d0" by (simp add: h1a_def blocks_set_block)
    have inv': "vector_inv h1a v'"
    proof (rule vector_invI [OF v'f(1)])
      show "na < next_addr h1a" by (simp add: h1a_def set_block_fields h1_def)
      show "blocks h1a na = Some d0" by (rule bl)
      show "length d0 = Capacity v'" using v'f by (simp add: d0_def raw_def)
      show "vec_size v' \<le> Capacity v'" using v'f cpos by simp
      show "\<forall>k < Capacity v'. alive (d0 ! k) = (k < vec_size v')"
        using v'f zero d0n by (simp add: raw_slot_def)
    qed
    have cv: "contents h v = []" using clen zero by simp
    have "take (Suc 0) d0 = [Slot True (Some x)]"
      using cpos zero by (cases c) (simp_all add: d0_def raw_def)
    then have "contents h1a v' = take dist (contents h v) @ Some x # drop dist (contents h v)"
      using bl zero cv
      by (simp add: contents_def [of h1a] elements_def slots_def v'_def new_data_def)
    moreover have "\<forall>a. a \<noteq> na \<longrightarrow> blocks h1a a = blocks h a"
      by (simp add: h1a_def blocks_set_block h1_def set_block_def)
    moreover have "next_addr h1a = Suc na" "avail h1a + c = avail h + Capacity v"
      using room zero by (simp_all add: h1a_def set_block_fields h1_def set_block_def c_def n_def)
    ultimately show ?thesis
      using run inv' None
      by (intro exI [of _ h1a]) (simp add: v'_def na_def new_data_def c_def n_def)
  next
    case (Some a)
    with inv obtain b where
      blk: "blocks h a = Some b" and len: "length b = Capacity v" and old: "a < next_addr h"
      by (auto simp: vector_inv_def split: option.splits)
    have sl: "slots h v = b" using Some blk by (simp add: slots_def)
    have lenb: "length b = n" using len full by (simp add: n_def)
    have ne: "a \<noteq> na" using old by (simp add: na_def)
    have b1: "blocks h1a a = Some b" "blocks h1a na = Some d0"
      using blk ne by (simp_all add: h1a_def blocks_set_block h1_def set_block_def)
    have q1: "\<forall>t < dist. \<not> relocate_fails T (b ! (0 + t))"
      using quiet sl pos by simp
    have bnd1: "0 + dist \<le> length b" "0 + dist \<le> length d0"
      using pos lenb cpos by (simp_all add: d0_def raw_def n_def)
    from Relocate_ok [OF b1 ne bnd1 q1] obtain src1 dst1 where
      rel1: "Relocate T (Ptr (Some a) 0) dist (Ptr (Some na) 0) h1a =
               Ok () (set_block na dst1 (set_block a src1 h1a))" and
      lens1: "length src1 = length b" "length dst1 = length d0" and
      nthd1: "\<forall>i < length d0. dst1 ! i =
               (if 0 \<le> i \<and> i < 0 + dist then Slot True (content (b ! (0 + (i - 0)))) else d0 ! i)" and
      keep1: "\<forall>i < length b. i < 0 \<or> 0 + dist \<le> i \<longrightarrow> src1 ! i = b ! i" and
      live1: "\<forall>i < length b. alive (src1 ! i) = alive (b ! i)"
      by blast
    define h2 where "h2 = set_block na dst1 (set_block a src1 h1a)"
    have b2: "blocks h2 a = Some src1" "blocks h2 na = Some dst1"
      using ne by (simp_all add: h2_def blocks_set_block)
    have q2: "\<forall>t < n - dist. \<not> relocate_fails T (src1 ! (dist + t))"
      using quiet sl keep1 lenb by (simp add: n_def)
    have bnd2: "dist + (n - dist) \<le> length src1" "Suc dist + (n - dist) \<le> length dst1"
      using pos lenb lens1 cpos by (simp_all add: d0_def raw_def n_def)
    from Relocate_ok [OF b2 ne bnd2 q2] obtain src2 dst2 where
      rel2: "Relocate T (Ptr (Some a) dist) (n - dist) (Ptr (Some na) (Suc dist)) h2 =
               Ok () (set_block na dst2 (set_block a src2 h2))" and
      lens2: "length src2 = length src1" "length dst2 = length dst1" and
      nthd2: "\<forall>i < length dst1. dst2 ! i =
               (if Suc dist \<le> i \<and> i < Suc dist + (n - dist)
                then Slot True (content (src1 ! (dist + (i - Suc dist)))) else dst1 ! i)" and
      live2: "\<forall>i < length src1. alive (src2 ! i) = alive (src1 ! i)"
      by blast
    define h3 where "h3 = set_block na dst2 (set_block a src2 h2)"
    have b3: "blocks h3 a = Some src2" using ne by (simp add: h3_def blocks_set_block)
    have "\<And>k. k < n \<Longrightarrow> alive (b ! k)"
      using vector_inv_alive [OF inv] sl full by (simp add: n_def)
    then have live3: "trivial_dtor T \<or> (\<forall>k. 0 \<le> k \<and> k < 0 + n \<longrightarrow> alive (src2 ! k))"
      using live1 live2 lenb lens1 by simp
    have "0 + n \<le> length src2" using lenb lens1 lens2 by simp
    from destroy_n_in [OF b3 this live3] obtain b'' where
      des: "destroy_n T (Ptr (Some a) 0) n h3 = Ok () (set_block a b'' h3)" and
      len'': "length b'' = length src2"
      by blast
    define h4 where "h4 = set_block a b'' h3"
    define h' where "h' = Deallocate (Some a) h4"
    have grow: "Emplace_grow T dist (Some x) (h, v) = Ok () (h', v\<lparr>vec_data := new_data\<rparr>)"
      using alloc fwd Some rel1 rel2 des cpos
      by (simp add: Emplace_grow_def on_heap_def with_local_def asserting_def RawMemory_plus_def
          new_data_def adopt_def RawMemory_Swap_def RawMemory_dtor_def Vector_begin_def GetAddress_def
          ptr_add_Ptr h2_def h3_def h4_def h'_def n_def [symmetric])
    have run: "Emplace T dist (Some x) (h, v) = Ok (Ptr (Some na) dist) (h', v')"
      using grow full pos below
      by (simp add: Emplace_def v'_def Vector_begin_def GetAddress_def ptr_add_Ptr new_data_def
          n_def [symmetric] size_t_Suc)
    have b4: "blocks h4 a = Some b''" by (simp add: h4_def blocks_set_block)
    have h'eq: "h' = h4\<lparr>blocks := (blocks h4)(a := None), avail := avail h4 + length b''\<rparr>"
      using b4 by (simp add: h'_def Deallocate_block)
    have bl_na: "blocks h' na = Some dst2"
      using ne by (simp add: h'eq h4_def h3_def blocks_set_block)
    have bl_a: "blocks h' a = None"
      by (simp add: h'eq)
    have bl_other: "\<forall>x. x \<noteq> na \<and> x \<noteq> a \<longrightarrow> blocks h' x = blocks h x"
      by (simp add: h'eq h4_def h3_def h2_def h1a_def blocks_set_block h1_def set_block_def)
    have fields: "next_addr h' = Suc na" "avail h' + c = avail h + Capacity v"
      using room len lens1 lens2 len''
      by (simp_all add: h'eq h4_def h3_def h2_def h1a_def set_block_fields h1_def set_block_def c_def n_def)
    have lend: "length dst2 = c" using lens1 lens2 by (simp add: d0_def raw_def)
    have dn: "\<And>i. i < c \<Longrightarrow> dst2 ! i =
        (if i < dist then Slot True (content (b ! i))
         else if i = dist then Slot True (Some x)
         else if i \<le> n then Slot True (content (b ! (i - 1)))
         else raw_slot)"
    proof -
      fix i assume i: "i < c"
      have l: "i < length dst1" "i < length d0" using i lens1 by (simp_all add: d0_def raw_def)
      have s: "Suc dist \<le> i \<Longrightarrow> i \<le> n \<Longrightarrow> src1 ! (dist + (i - Suc dist)) = b ! (i - 1)"
      proof -
        assume a: "Suc dist \<le> i" "i \<le> n"
        then have "dist + (i - Suc dist) = i - 1" by simp
        moreover have "i - 1 < length b" "dist \<le> i - 1" using a lenb by simp_all
        ultimately show ?thesis using keep1 by simp
      qed
      show "dst2 ! i =
        (if i < dist then Slot True (content (b ! i))
         else if i = dist then Slot True (Some x)
         else if i \<le> n then Slot True (content (b ! (i - 1)))
         else raw_slot)"
        using nthd2 nthd1 l d0n [OF i] pos s by (auto simp: n_def)
    qed
    have sl': "slots h' v' = dst2"
      using bl_na by (simp add: slots_def v'_def new_data_def)
    have inv': "vector_inv h' v'"
    proof (rule vector_invI [OF v'f(1)])
      show "na < next_addr h'" using fields by simp
      show "blocks h' na = Some dst2" by (rule bl_na)
      show "length dst2 = Capacity v'" using lend v'f by simp
      show "vec_size v' \<le> Capacity v'" using v'f cpos by simp
      show "\<forall>k < Capacity v'. alive (dst2 ! k) = (k < vec_size v')"
        using dn v'f pos by (auto simp: raw_slot_def n_def)
    qed
    have cnth: "\<And>j. j < n \<Longrightarrow> contents h v ! j = content (b ! j)"
      using sl lenb by (simp add: contents_def elements_def n_def)
    have cont: "contents h' v' = take dist (contents h v) @ Some x # drop dist (contents h v)"
    proof (rule nth_equalityI)
      show "length (contents h' v') = length (take dist (contents h v) @ Some x # drop dist (contents h v))"
        using sl' lend cpos clen pos v'f by (simp add: contents_def elements_def n_def)
    next
      fix k assume "k < length (contents h' v')"
      then have k: "k < Suc n" using sl' v'f by (simp add: contents_def elements_def)
      then have kc: "k < c" using cpos by simp
      have lhs: "contents h' v' ! k = content (dst2 ! k)"
        using k kc sl' lend v'f by (simp add: contents_def elements_def)
      have rhs: "(take dist (contents h v) @ Some x # drop dist (contents h v)) ! k =
                 (if k < dist then content (b ! k) else if k = dist then Some x else content (b ! (k - 1)))"
      proof (cases "k < dist")
        case True
        then show ?thesis using pos clen cnth by (simp add: nth_append n_def)
      next
        case False
        show ?thesis
        proof (cases "k = dist")
          case True
          then show ?thesis using pos clen by (simp add: nth_append n_def)
        next
          case ne: False
          with False have gt: "dist < k" by simp
          then obtain m where m: "k - dist = Suc m" by (cases "k - dist") auto
          then have km: "dist + m = k - 1" "k - 1 < n" using gt k by simp_all
          show ?thesis
            using gt pos clen m km cnth by (simp add: nth_append n_def min_def)
        qed
      qed
      show "contents h' v' ! k = (take dist (contents h v) @ Some x # drop dist (contents h v)) ! k"
        using lhs rhs dn [OF kc] k by auto
    qed
    show ?thesis
      using run cont inv' bl_a bl_other fields Some
      by (intro exI [of _ h']) (auto simp: v'_def na_def new_data_def c_def n_def)
  qed
qed

text \<open>
  \<^verbatim>\<open>Reserve(n)\<close> above the capacity moves the elements to a new block of capacity
  \<open>n\<close>, keeps the values and the invariant and releases the old block, provided the
  byte count of the request does not wrap around.
\<close>

lemma Reserve_grows:
  assumes inv: "vector_inv h v" and grow: "Capacity v < n"
    and sized: "0 < size_of T" and nowrap: "n * size_of T \<le> SIZE_MAX"
    and room: "n \<le> avail h"
    and quiet: "\<forall>k < vec_size v. \<not> relocate_fails T (slots h v ! k)"
  shows "\<exists>h'. Reserve T n (h, v) =
            Ok () (h', \<lparr>vec_data = \<lparr>rm_buffer = Some (next_addr h), rm_capacity = n\<rparr>, vec_size = vec_size v\<rparr>) \<and>
          contents h' \<lparr>vec_data = \<lparr>rm_buffer = Some (next_addr h), rm_capacity = n\<rparr>, vec_size = vec_size v\<rparr> =
            contents h v \<and>
          vector_inv h' \<lparr>vec_data = \<lparr>rm_buffer = Some (next_addr h), rm_capacity = n\<rparr>, vec_size = vec_size v\<rparr> \<and>
          (\<forall>a. rm_buffer (vec_data v) = Some a \<longrightarrow> blocks h' a = None) \<and>
          (\<forall>a. a \<noteq> next_addr h \<and> Some a \<noteq> rm_buffer (vec_data v) \<longrightarrow> blocks h' a = blocks h a) \<and>
          next_addr h' = Suc (next_addr h) \<and>
          avail h' + n = avail h + Capacity v"
proof -
  define na where "na = next_addr h"
  define v' where "v' = \<lparr>vec_data = \<lparr>rm_buffer = Some na, rm_capacity = n\<rparr>, vec_size = vec_size v\<rparr>"
  define h1 where "h1 = (set_block na (replicate n raw_slot) h)\<lparr>next_addr := Suc na, avail := avail h - n\<rparr>"
  have alloc: "Allocate T n h = Ok (Some na) h1"
    using grow room sized nowrap by (simp add: Allocate_ok na_def h1_def)
  have sz: "vec_size v \<le> Capacity v" using inv by (simp add: vector_inv_def)
  have v'f: "rm_buffer (vec_data v') = Some na" "Capacity v' = n" "vec_size v' = vec_size v"
    by (simp_all add: v'_def Capacity_def)
  show ?thesis
  proof (cases "rm_buffer (vec_data v)")
    case None
    then have zero: "Capacity v = 0" "vec_size v = 0"
      using inv by (auto simp: vector_inv_def)
    have run: "Reserve T n (h, v) = Ok () (h1, v')"
      using grow alloc None zero
      by (simp add: Reserve_def on_heap_def with_local_def RawMemory_def Relocate_def
          uninitialized_copy_n_def uninitialized_move_n_def adopt_def RawMemory_Swap_def
          RawMemory_dtor_def Deallocate_def v'_def)
    have inv': "vector_inv h1 v'"
      using zero
      by (simp add: vector_inv_def v'_def Capacity_def h1_def set_block_def raw_slot_def)
    have "contents h1 v' = contents h v"
      using zero by (simp add: contents_def elements_def v'_def)
    moreover have "\<forall>a. a \<noteq> na \<longrightarrow> blocks h1 a = blocks h a"
      by (simp add: h1_def set_block_def)
    moreover have "next_addr h1 = Suc na" "avail h1 + n = avail h + Capacity v"
      using room zero by (simp_all add: h1_def set_block_def)
    ultimately show ?thesis
      using run inv' None by (intro exI [of _ h1]) (simp add: v'_def na_def)
  next
    case (Some a)
    with inv obtain b where
      blk: "blocks h a = Some b" and len: "length b = Capacity v" and old: "a < next_addr h"
      by (auto simp: vector_inv_def split: option.splits)
    have sl: "slots h v = b" using Some blk by (simp add: slots_def)
    have ne: "a \<noteq> na" using old by (simp add: na_def)
    have b1: "blocks h1 a = Some b" "blocks h1 na = Some (replicate n raw_slot)"
      using blk ne by (simp_all add: h1_def set_block_def)
    have q: "\<forall>t < vec_size v. \<not> relocate_fails T (b ! (0 + t))"
      using quiet sl by simp
    have bnd: "0 + vec_size v \<le> length b" "0 + vec_size v \<le> length (replicate n raw_slot :: 'a slot list)"
      using sz len grow by simp_all
    from Relocate_ok [OF b1 ne bnd q] obtain src' dst' where
      rel: "Relocate T (Ptr (Some a) 0) (vec_size v) (Ptr (Some na) 0) h1 =
              Ok () (set_block na dst' (set_block a src' h1))" and
      lens: "length src' = length b" "length dst' = n" and
      nthd: "\<forall>i < n. dst' ! i =
               (if 0 \<le> i \<and> i < 0 + vec_size v then Slot True (content (b ! (0 + (i - 0))))
                else replicate n raw_slot ! i)" and
      live1: "\<forall>i < length b. alive (src' ! i) = alive (b ! i)"
      by auto
    define h2 where "h2 = set_block na dst' (set_block a src' h1)"
    have b2: "blocks h2 a = Some src'" using ne by (simp add: h2_def blocks_set_block)
    have "\<And>k. k < vec_size v \<Longrightarrow> alive (b ! k)"
      using vector_inv_alive [OF inv] sl sz by simp
    then have live2: "trivial_dtor T \<or> (\<forall>k. 0 \<le> k \<and> k < 0 + vec_size v \<longrightarrow> alive (src' ! k))"
      using live1 sz len by simp
    have "0 + vec_size v \<le> length src'" using sz len lens by simp
    from destroy_n_in [OF b2 this live2] obtain b'' where
      des: "destroy_n T (Ptr (Some a) 0) (vec_size v) h2 = Ok () (set_block a b'' h2)" and
      len'': "length b'' = length src'"
      by blast
    define h3 where "h3 = set_block a b'' h2"
    define h' where "h' = Deallocate (Some a) h3"
    have run: "Reserve T n (h, v) = Ok () (h', v')"
      using grow alloc Some rel des
      by (simp add: Reserve_def on_heap_def with_local_def RawMemory_def Vector_begin_def GetAddress_def
          adopt_def RawMemory_Swap_def RawMemory_dtor_def v'_def h2_def h3_def h'_def)
    have b3: "blocks h3 a = Some b''" by (simp add: h3_def blocks_set_block)
    have h'eq: "h' = h3\<lparr>blocks := (blocks h3)(a := None), avail := avail h3 + length b''\<rparr>"
      using b3 by (simp add: h'_def Deallocate_block)
    have bl_na: "blocks h' na = Some dst'"
      using ne by (simp add: h'eq h3_def h2_def blocks_set_block)
    have bl_a: "blocks h' a = None"
      by (simp add: h'eq)
    have bl_other: "\<forall>x. x \<noteq> na \<and> x \<noteq> a \<longrightarrow> blocks h' x = blocks h x"
      by (simp add: h'eq h3_def h2_def blocks_set_block h1_def set_block_def)
    have fields: "next_addr h' = Suc na" "avail h' + n = avail h + Capacity v"
      using room len lens len''
      by (simp_all add: h'eq h3_def h2_def set_block_fields h1_def set_block_def)
    have dn: "\<And>i. i < n \<Longrightarrow> dst' ! i = (if i < vec_size v then Slot True (content (b ! i)) else raw_slot)"
      using nthd by simp
    have sl': "slots h' v' = dst'"
      using bl_na by (simp add: slots_def v'_def)
    have inv': "vector_inv h' v'"
    proof (rule vector_invI [OF v'f(1)])
      show "na < next_addr h'" using fields by simp
      show "blocks h' na = Some dst'" by (rule bl_na)
      show "length dst' = Capacity v'" using lens v'f by simp
      show "vec_size v' \<le> Capacity v'" using sz grow v'f by simp
      show "\<forall>k < Capacity v'. alive (dst' ! k) = (k < vec_size v')"
        using dn v'f by (simp add: raw_slot_def)
    qed
    have cont: "contents h' v' = contents h v"
    proof (rule nth_equalityI)
      show "length (contents h' v') = length (contents h v)"
        using sl sl' sz len lens grow v'f by (simp add: contents_def elements_def)
    next
      fix k assume "k < length (contents h' v')"
      then have k: "k < vec_size v" using sl' v'f by (simp add: contents_def elements_def)
      then show "contents h' v' ! k = contents h v ! k"
        using sl sl' sz len lens grow v'f dn [of k] by (simp add: contents_def elements_def)
    qed
    show ?thesis
      using run cont inv' bl_a bl_other fields Some
      by (intro exI [of _ h']) (auto simp: v'_def na_def)
  qed
qed

text \<open>
  \<^verbatim>\<open>PopBack\<close> on a non-empty vector destroys the last element. On an empty one
  \<^verbatim>\<open>size_\<close> wraps around and the assertion of \<^verbatim>\<open>operator+\<close> fails.
\<close>

lemma PopBack_destroys_last:
  assumes inv: "vector_inv h v" and pos: "0 < vec_size v"
  shows "\<exists>h'. PopBack T (h, v) = Ok () (h', v\<lparr>vec_size := vec_size v - 1\<rparr>) \<and>
          contents h' (v\<lparr>vec_size := vec_size v - 1\<rparr>) = butlast (contents h v) \<and>
          vector_inv h' (v\<lparr>vec_size := vec_size v - 1\<rparr>) \<and>
          (\<forall>a. Some a \<noteq> rm_buffer (vec_data v) \<longrightarrow> blocks h' a = blocks h a) \<and>
          next_addr h' = next_addr h \<and> avail h' = avail h"
proof -
  from inv pos have cap: "0 < Capacity v" by (auto simp: vector_inv_def)
  from vector_inv_buffer [OF inv cap] obtain a b where
    buf: "rm_buffer (vec_data v) = Some a" and blk: "blocks h a = Some b" and
    len: "length b = Capacity v" and old: "a < next_addr h" and sz: "vec_size v \<le> Capacity v" and
    al: "map alive b = replicate (vec_size v) True @ replicate (Capacity v - vec_size v) False"
    by blast
  define n where "n = vec_size v"
  define b1 where "b1 = b[n - 1 := destroyed T (b ! (n - 1))]"
  define h' where "h' = set_block a b1 h"
  define v' where "v' = v\<lparr>vec_size := vec_size v - 1\<rparr>"
  have nb: "n - 1 < length b" "0 < n" "n \<le> length b" using pos sz len by (simp_all add: n_def)
  have live_last: "alive (b ! (vec_size v - 1))"
    using alive_nth [of b "vec_size v" "vec_size v - 1"] al len pos sz by simp
  have run: "PopBack T (h, v) = Ok () (h', v')"
    using pos sz buf blk nb live_last
    by (simp add: PopBack_def size_dec_def asserting_def on_heap_def RawMemory_plus_def Capacity_def
        destroy_at_in h'_def b1_def v'_def n_def)
  have v'f: "rm_buffer (vec_data v') = Some a" "Capacity v' = Capacity v" "vec_size v' = n - 1"
    using buf by (simp_all add: v'_def Capacity_def n_def)
  have inv': "vector_inv h' v'"
  proof (rule vector_invI [OF v'f(1)])
    show "a < next_addr h'" using old by (simp add: h'_def set_block_fields)
    show "blocks h' a = Some b1" by (simp add: h'_def blocks_set_block)
    show "length b1 = Capacity v'" using len v'f by (simp add: b1_def)
    show "vec_size v' \<le> Capacity v'" using sz v'f by (simp add: n_def)
    show "\<forall>k < Capacity v'. alive (b1 ! k) = (k < vec_size v')"
    proof (intro allI impI)
      fix k assume "k < Capacity v'"
      then have k: "k < length b" using len v'f by simp
      have "alive (b ! k) = (k < n)"
        using alive_nth [of b "vec_size v" k] al len k by (simp add: n_def)
      then show "alive (b1 ! k) = (k < vec_size v')"
        using k v'f nb by (cases "k = n - 1") (auto simp: b1_def nth_list_update alive_destroyed)
    qed
  qed
  have "contents h' v' = butlast (contents h v)"
    using buf blk nb
    by (simp add: contents_def elements_def slots_def h'_def blocks_set_block v'_def b1_def
        n_def [symmetric] butlast_take map_butlast [symmetric])
  moreover have "\<forall>x. Some x \<noteq> rm_buffer (vec_data v) \<longrightarrow> blocks h' x = blocks h x"
    using buf by (auto simp: h'_def blocks_set_block)
  ultimately show ?thesis
    using run inv' by (intro exI [of _ h']) (simp add: v'_def h'_def set_block_fields)
qed

lemma PopBack_on_empty_fails_assertion:
  "vec_size v = 0 \<Longrightarrow> Capacity v < SIZE_MAX \<Longrightarrow>
   PopBack T (h, v) = Raise AssertFail (h, v\<lparr>vec_size := SIZE_MAX\<rparr>)"
  by (simp add: PopBack_def size_dec_def asserting_def RawMemory_plus_def Capacity_def)

text \<open>
  The assertion of \<^verbatim>\<open>Erase\<close> lets \<^verbatim>\<open>end()\<close> through; the range handed to the
  standard algorithm then starts after its end.
\<close>

lemma Erase_at_end_is_invalid:
  "vec_size v = dist \<Longrightarrow> Erase T dist (h, v) = Raise MemFault (h, v)"
  by (simp add: Erase_def std_move_def std_copy_def Vector_begin_def Vector_end_def GetAddress_def
      ptr_add_Ptr is_exception_def)

text \<open>
  Move assignment between two objects gives the target the buffer and the size of the
  source and leaves the source empty. The free store is untouched: the block the target
  owned before is neither released nor are its elements destroyed.
\<close>

lemma move_assignment_transfers:
  assumes "this \<noteq> rhs"
  shows "\<exists>objs'. Vector_move_assign this rhs (h, objs) = (h, objs') \<and>
           objs' this = \<lparr>vec_data = vec_data (objs rhs), vec_size = vec_size (objs rhs)\<rparr> \<and>
           contents h (objs' this) = contents h (objs rhs) \<and>
           Size (objs' rhs) = 0 \<and> Capacity (objs' rhs) = 0 \<and> rm_buffer (vec_data (objs' rhs)) = None \<and>
           (\<forall>x. x \<noteq> this \<and> x \<noteq> rhs \<longrightarrow> objs' x = objs x)"
  using assms
  by (simp add: Vector_move_assign_def RawMemory_move_assign_def contents_def elements_def slots_def
      Size_def Capacity_def)

text \<open>
  Before the end with spare capacity, the first step of \<^verbatim>\<open>Emplace\<close> move-constructs
  the slot at index \<^verbatim>\<open>size_\<close> from itself. When the move constructor throws on what
  that raw slot holds, the exception leaves with nothing changed.
\<close>

lemma Emplace_before_end_move_throws:
  assumes inv: "vector_inv h v" and pos: "dist < vec_size v" and spare: "vec_size v < Capacity v"
    and throws: "move_ctor_fails T (slots h v ! vec_size v)"
  shows "Emplace T dist args (h, v) = Raise ElemThrow (h, v)"
proof -
  from spare have cap: "0 < Capacity v" by simp
  from vector_inv_buffer [OF inv cap] obtain a b where
    buf: "rm_buffer (vec_data v) = Some a" and blk: "blocks h a = Some b" and
    len: "length b = Capacity v"
    by blast
  have sl: "slots h v = b" using buf blk by (simp add: slots_def)
  have "move_construct T (Ptr (Some a) (vec_size v)) (Ptr (Some a) (vec_size v)) h = Raise ElemThrow h"
    using blk len spare throws sl by (simp add: move_construct_def load_in)
  then have "Emplace_in_middle T dist args (h, v) = Raise ElemThrow (h, v)"
    using buf spare
    by (simp add: Emplace_in_middle_def asserting_def on_heap_def RawMemory_index_def Capacity_def
        Vector_end_def GetAddress_def ptr_add_Ptr)
  then show ?thesis
    using pos spare buf
    by (simp add: Emplace_def Vector_begin_def GetAddress_def ptr_add_Ptr nullptr_def)
qed

text \<open>
  Inserting at a position and erasing there gives back the values when the insertion is
  at \<^verbatim>\<open>end()\<close> with spare capacity, and when it reallocates.
\<close>

lemma Insert_at_end_then_Erase:
  assumes inv: "vector_inv h v" and spare: "vec_size v < Capacity v" and sized: "Capacity v \<le> SIZE_MAX"
  shows "\<exists>h1 v1 p h2.
           Emplace T (vec_size v) (Some x) (h, v) = Ok p (h1, v1) \<and>
           Erase T (vec_size v) (h1, v1) = Ok p (h2, v) \<and>
           contents h2 v = contents h v \<and> vector_inv h2 v"
proof -
  define v1 where "v1 = v\<lparr>vec_size := Suc (vec_size v)\<rparr>"
  from Emplace_at_end_appends [OF inv spare sized, of T x] obtain h1 where
    ins: "Emplace T (vec_size v) (Some x) (h, v) = Ok (Vector_end v) (h1, v1)" and
    c1: "contents h1 v1 = contents h v @ [Some x]" and inv1: "vector_inv h1 v1"
    by (auto simp: v1_def)
  have pos: "vec_size v < vec_size v1" by (simp add: v1_def)
  have quiet: "\<forall>k. vec_size v < k \<and> k < vec_size v1 \<longrightarrow> \<not> shift_throws T (slots h1 v1 ! k)"
    by (auto simp: v1_def)
  have restored: "v1\<lparr>vec_size := vec_size v1 - 1\<rparr> = v" by (simp add: v1_def)
  have p: "ptr_add (Vector_begin v1) (vec_size v) = Vector_end v"
    by (simp add: v1_def Vector_begin_def Vector_end_def)
  from Erase_effect [OF inv1 pos quiet] obtain h2 where
    er: "Erase T (vec_size v) (h1, v1) = Ok (Vector_end v) (h2, v)" and
    c2: "contents h2 v = take (vec_size v) (contents h1 v1) @ drop (Suc (vec_size v)) (contents h1 v1)" and
    inv2: "vector_inv h2 v"
    unfolding restored p by blast
  have "contents h2 v = contents h v"
    using c2 c1 contents_length [OF inv] by simp
  then show ?thesis using ins er inv2 by blast
qed

lemma Insert_reallocating_then_Erase:
  assumes inv: "vector_inv h v" and pos: "dist \<le> vec_size v" and full: "vec_size v = Capacity v"
    and sized: "0 < size_of T"
    and nowrap: "vec_size v * 2 \<le> SIZE_MAX" "grown (vec_size v) * size_of T \<le> SIZE_MAX"
    and room: "grown (vec_size v) \<le> avail h"
    and quiet: "\<forall>k < vec_size v. \<not> relocate_fails T (slots h v ! k) \<and> \<not> shift_throws T (slots h v ! k)"
  shows "\<exists>h1 v1 p h2 v2.
           Emplace T dist (Some x) (h, v) = Ok p (h1, v1) \<and>
           Erase T dist (h1, v1) = Ok p (h2, v2) \<and>
           contents h2 v2 = contents h v \<and> Size v2 = Size v \<and> vector_inv h2 v2"
proof -
  define v1 where "v1 = \<lparr>vec_data = \<lparr>rm_buffer = Some (next_addr h), rm_capacity = grown (vec_size v)\<rparr>,
                         vec_size = Suc (vec_size v)\<rparr>"
  define v2 where "v2 = v1\<lparr>vec_size := vec_size v1 - 1\<rparr>"
  have q1: "\<forall>k < vec_size v. \<not> relocate_fails T (slots h v ! k)" using quiet by simp
  from Emplace_reallocates [OF inv pos full sized nowrap room q1, of x] obtain h1 where
    ins: "Emplace T dist (Some x) (h, v) = Ok (Ptr (Some (next_addr h)) dist) (h1, v1)" and
    c1: "contents h1 v1 = take dist (contents h v) @ Some x # drop dist (contents h v)" and
    inv1: "vector_inv h1 v1"
    by (auto simp: v1_def)
  have lt: "dist < vec_size v1" using pos by (simp add: v1_def)
  have clen: "length (contents h v) = vec_size v" by (rule contents_length [OF inv])
  have q2: "\<forall>k. dist < k \<and> k < vec_size v1 \<longrightarrow> \<not> shift_throws T (slots h1 v1 ! k)"
  proof (intro allI impI)
    fix k assume k: "dist < k \<and> k < vec_size v1"
    then have k1: "k - 1 < vec_size v" "dist \<le> k - 1" by (auto simp: v1_def)
    obtain m where m: "k - dist = Suc m" using k by (cases "k - dist") auto
    then have dm: "dist + m = k - 1" using k by simp
    have "content (slots h1 v1 ! k) = contents h1 v1 ! k"
      using contents_nth [OF inv1, of k] k by simp
    also have "\<dots> = contents h v ! (k - 1)"
      using k pos clen m dm k1 by (simp add: c1 nth_append min_def)
    also have "\<dots> = content (slots h v ! (k - 1))"
      using contents_nth [OF inv k1(1)] .
    finally have "shift_throws T (slots h1 v1 ! k) = shift_throws T (slots h v ! (k - 1))"
      by (rule shift_throws_content)
    then show "\<not> shift_throws T (slots h1 v1 ! k)" using quiet k1 by simp
  qed
  have p: "ptr_add (Vector_begin v1) dist = Ptr (Some (next_addr h)) dist"
    by (simp add: v1_def Vector_begin_def GetAddress_def ptr_add_Ptr)
  from Erase_effect [OF inv1 lt q2] obtain h2 where
    er: "Erase T dist (h1, v1) = Ok (Ptr (Some (next_addr h)) dist) (h2, v2)" and
    c2: "contents h2 v2 = take dist (contents h1 v1) @ drop (Suc dist) (contents h1 v1)" and
    inv2: "vector_inv h2 v2"
    unfolding p v2_def [symmetric] by blast
  have "contents h2 v2 = contents h v"
    using c2 pos clen by (simp add: c1 min_def)
  moreover have "Size v2 = Size v" by (simp add: v2_def v1_def Size_def)
  ultimately show ?thesis using ins er inv2 by blast
qed

section \<open>Reserve within the capacity, and self-assignment\<close>

text \<open>
  Claim C9. \<^verbatim>\<open>Reserve(k)\<close> with \<open>k\<close> at most the capacity returns at once: the free
  store and the fields of the vector are what they were, so size, capacity, the elements
  and the address of each of them are unchanged.
\<close>

theorem Reserve_within_capacity:
  "k \<le> Capacity v \<Longrightarrow> Reserve T k (h, v) = Ok () (h, v)"
  by (simp add: Reserve_def)

theorem Reserve_within_capacity_witness:
  "(2::nat) \<le> Capacity \<lparr>vec_data = \<lparr>rm_buffer = Some 0, rm_capacity = 4\<rparr>, vec_size = 1\<rparr> \<and>
   Reserve int_type 2
     (set_block 0 [Slot True (Some 7), raw_slot, raw_slot, raw_slot] (empty_heap 0),
      \<lparr>vec_data = \<lparr>rm_buffer = Some 0, rm_capacity = 4\<rparr>, vec_size = 1\<rparr>) =
   Ok ()
     (set_block 0 [Slot True (Some 7), raw_slot, raw_slot, raw_slot] (empty_heap 0),
      \<lparr>vec_data = \<lparr>rm_buffer = Some 0, rm_capacity = 4\<rparr>, vec_size = 1\<rparr>)"
proof -
  have cap: "(2::nat) \<le> Capacity \<lparr>vec_data = \<lparr>rm_buffer = Some 0, rm_capacity = 4\<rparr>, vec_size = 1\<rparr>"
    by (simp add: Capacity_def)
  from Reserve_within_capacity [OF cap] cap show ?thesis
    by simp
qed

text \<open>
  Claim C10. Both assignment operators compare \<^verbatim>\<open>this\<close> with the address of their
  argument first. Assigning the object at address \<open>a\<close> to itself, by copy or by move,
  leaves the free store and every object of the store as they were.
\<close>

theorem self_assignment_is_skipped:
  "Vector_copy_assign T a a (h, objs) = Ok () (h, objs) \<and> Vector_move_assign a a (h, objs) = (h, objs)"
  by (simp add: Vector_copy_assign_def Vector_move_assign_def)

end
